theory Spec2Isabelle
  imports Main
begin

section \<open>Data model (bvh.hpp)\<close>

text \<open>
  Conventions of the embedding.
  \<^item> \<open>size_t\<close> and \<open>IndexType\<close> values are natural numbers: every index the builder
    computes is below \<open>node_count\<close>, and the claims are about \<open>primitive_count \<ge> 1\<close>,
    where \<open>2 * primitive_count - 1\<close> does not wrap.
  \<open>best_neighbor = size_t(-1)\<close> is \<open>None\<close>.
  \<^item> \<open>Scalar\<close> is a linearly ordered type with a zero (the value of a value-initialised
    array element); \<open>std::numeric_limits<Scalar>::max()\<close> is the parameter \<open>smax\<close>.
    Not-a-number is outside the model.
  \<^item> The bounding volume a node stores (six scalars for \<open>Node\<close>, a cylinder
    descriptor for \<open>CustomNode\<close>) is one field \<open>bounds\<close> of an abstract type; the
    proxy's \<open>to_bounding_box\<close> reads it and its assignment writes it. The operations of
    \<open>bvh/bounding_box.hpp\<close> (not among the sources) are parameters:
    \<open>extend\<close> (written \<open>ext\<close>), \<open>half_area\<close> and, for the hybrid build, \<open>AABB\<close>.
  \<^item> A failed \<open>assert\<close> is the error value \<open>Assertion_failed\<close>.
\<close>

datatype error = Assertion_failed

record 'v custom_node =
  bounds :: 'v
  is_leaf :: bool
  primitive_count :: nat
  first_child_or_primitive :: nat

record 'v node = "'v custom_node" +
  origin :: nat

record ('b, 'c) bvh =
  nodes :: "'b node list"
  cnodes :: "'c custom_node list"
  primitive_indices :: "nat list"
  cylinder :: bool
  hybrid :: bool
  node_count :: nat

text \<open>\<open>Bvh::sibling\<close> and \<open>Bvh::is_left_sibling\<close>, with their assertion.\<close>

definition sibling :: "nat \<Rightarrow> error + nat" where
  "sibling index =
     (if index = 0 then Inl Assertion_failed
      else Inr (if index mod 2 = 1 then index + 1 else index - 1))"

definition is_left_sibling :: "nat \<Rightarrow> error + bool" where
  "is_left_sibling index =
     (if index = 0 then Inl Assertion_failed else Inr (index mod 2 = 1))"

section \<open>One clustering round (locally_ordered_clustering_builder.hpp, cluster)\<close>

definition search_range :: "nat \<Rightarrow> nat \<Rightarrow> nat \<Rightarrow> nat \<Rightarrow> nat \<times> nat" where
  "search_range search_radius i begin end =
     (if i > begin + search_radius then i - search_radius else begin,
      min (i + search_radius + 1) end)"

text \<open>
  The merge cost of the nodes at \<open>i\<close> and \<open>j\<close>, as the source writes it:
  \<open>input[i].bounding_box_proxy().to_bounding_box().extend(input[j].bounding_box_proxy()).half_area()\<close>.
\<close>

definition distance ::
  "('v \<Rightarrow> 'v \<Rightarrow> 'v) \<Rightarrow> ('v \<Rightarrow> 's) \<Rightarrow> ('v, 'm) custom_node_scheme list \<Rightarrow> nat \<Rightarrow> nat \<Rightarrow> 's" where
  "distance ext half_area input i j =
     half_area (ext (bounds (input ! i)) (bounds (input ! j)))"

text \<open>
  The distance matrix is an array of \<open>search_radius + 1\<close> row pointers into
  \<open>(search_radius + 1) * search_radius\<close> scalars: a list of rows. Rotating the
  pointers moves rows, not scalars.
\<close>

definition new_distance_matrix :: "nat \<Rightarrow> ('s::zero) list list" where
  "new_distance_matrix search_radius = replicate (search_radius + 1) (replicate search_radius 0)"

definition matrix_set :: "'s list list \<Rightarrow> nat \<Rightarrow> nat \<Rightarrow> 's \<Rightarrow> 's list list" where
  "matrix_set distance_matrix a b x = distance_matrix[a := (distance_matrix ! a)[b := x]]"

definition init_distance_matrix ::
  "(nat \<Rightarrow> nat \<Rightarrow> 's) \<Rightarrow> nat \<Rightarrow> nat \<Rightarrow> nat \<Rightarrow> nat \<Rightarrow> 's list list \<Rightarrow> 's list list" where
  "init_distance_matrix dist search_radius begin end chunk_begin distance_matrix =
     fold (\<lambda>i dm.
        let search_end = snd (search_range search_radius i begin end)
        in fold (\<lambda>j dm. matrix_set dm (chunk_begin - i) (j - i - 1) (dist i j))
             [i + 1 ..< search_end] dm)
       [fst (search_range search_radius chunk_begin begin end) ..< chunk_begin]
       distance_matrix"

definition backward_search ::
  "'s list list \<Rightarrow> nat \<Rightarrow> nat \<Rightarrow> ('s::linorder) \<times> nat option \<Rightarrow> 's \<times> nat option" where
  "backward_search distance_matrix i search_begin best =
     fold (\<lambda>j (best_distance, best_neighbor).
        let d = distance_matrix ! (i - j) ! (i - j - 1)
        in if d < best_distance then (d, Some j) else (best_distance, best_neighbor))
       [search_begin ..< i] best"

definition forward_search ::
  "(nat \<Rightarrow> nat \<Rightarrow> 's) \<Rightarrow> nat \<Rightarrow> nat \<Rightarrow> 's list list \<times> ('s::linorder) \<times> nat option
     \<Rightarrow> 's list list \<times> 's \<times> nat option" where
  "forward_search dist i search_end st =
     fold (\<lambda>j (dm, best_distance, best_neighbor).
        let d = dist i j;
            dm' = matrix_set dm 0 (j - i - 1) d
        in if d < best_distance then (dm', d, Some j) else (dm', best_distance, best_neighbor))
       [i + 1 ..< search_end] st"

definition rotate_distance_matrix :: "nat \<Rightarrow> 's list list \<Rightarrow> 's list list" where
  "rotate_distance_matrix search_radius distance_matrix =
     (distance_matrix ! search_radius) # take search_radius distance_matrix"

text \<open>The nearest neighbor search of one thread over the indices of its chunk.\<close>

fun nearest_neighbor_search ::
  "(nat \<Rightarrow> nat \<Rightarrow> 's) \<Rightarrow> ('s::linorder) \<Rightarrow> nat \<Rightarrow> nat \<Rightarrow> nat \<Rightarrow> nat list \<Rightarrow> 's list list \<Rightarrow> nat list
     \<Rightarrow> error + ('s list list \<times> nat list)" where
  "nearest_neighbor_search dist smax search_radius begin end [] distance_matrix neighbors =
     Inr (distance_matrix, neighbors)"
| "nearest_neighbor_search dist smax search_radius begin end (i # rest) distance_matrix neighbors =
     (let (search_begin, search_end) = search_range search_radius i begin end;
          best = backward_search distance_matrix i search_begin (smax, None);
          (dm, best_distance, best_neighbor) =
             forward_search dist i search_end (distance_matrix, best)
      in case best_neighbor of
           None \<Rightarrow> Inl Assertion_failed
         | Some n \<Rightarrow>
             nearest_neighbor_search dist smax search_radius begin end rest
               (rotate_distance_matrix search_radius dm) (neighbors[i := n]))"

text \<open>
  One thread of the parallel region: its chunk, its private distance matrix, the
  initialisation of the matrix and the search over the chunk.
\<close>

definition thread_search ::
  "(nat \<Rightarrow> nat \<Rightarrow> 's) \<Rightarrow> ('s::{linorder,zero}) \<Rightarrow> nat \<Rightarrow> nat \<Rightarrow> nat \<Rightarrow> nat \<Rightarrow> nat \<Rightarrow> nat list
     \<Rightarrow> error + nat list" where
  "thread_search dist smax search_radius begin end thread_count thread_id neighbors =
     (let chunk_size = (end - begin) div thread_count;
          chunk_begin = begin + thread_id * chunk_size;
          chunk_end = (if thread_id \<noteq> thread_count - 1 then chunk_begin + chunk_size else end);
          distance_matrix =
            init_distance_matrix dist search_radius begin end chunk_begin
              (new_distance_matrix search_radius)
      in case nearest_neighbor_search dist smax search_radius begin end
                [chunk_begin ..< chunk_end] distance_matrix neighbors of
           Inl e \<Rightarrow> Inl e
         | Inr (dm, neighbors') \<Rightarrow> Inr neighbors')"

text \<open>
  The threads of the team, up to the barrier. Each thread writes the entries of
  \<open>neighbors\<close> of its own chunk and reads the input only, so the team is the sequence
  of its threads; an assertion failing in one thread fails the round.
\<close>

fun team_search ::
  "(nat \<Rightarrow> nat list \<Rightarrow> error + nat list) \<Rightarrow> nat list \<Rightarrow> nat list \<Rightarrow> error + nat list" where
  "team_search thread [] neighbors = Inr neighbors"
| "team_search thread (thread_id # rest) neighbors =
     (case thread thread_id neighbors of
        Inl e \<Rightarrow> Inl e
      | Inr neighbors' \<Rightarrow> team_search thread rest neighbors')"

definition mark_merged :: "nat list \<Rightarrow> nat \<Rightarrow> nat \<Rightarrow> nat list \<Rightarrow> nat list" where
  "mark_merged neighbors begin end merged_index =
     fold (\<lambda>i mi.
        let j = neighbors ! i;
            is_mergeable = (neighbors ! j = i)
        in mi[i := (if i < j \<and> is_mergeable then 1 else 0)])
       [begin ..< end] merged_index"

text \<open>
  Modelled from the spec: \<open>PrefixSum::sum_in_parallel\<close> (bvh/prefix_sum.hpp is not among
  the sources). The spec calls it a prefix sum that assigns each flagged element a unique
  slot; the caller reads the total at \<open>merged_index[end - 1]\<close>, so the sum is inclusive.
  It runs in place over \<open>count\<close> elements from \<open>first\<close>.
\<close>

definition sum_in_parallel :: "nat list \<Rightarrow> nat \<Rightarrow> nat \<Rightarrow> nat list" where
  "sum_in_parallel xs first count =
     fold (\<lambda>i xs. if i = first then xs else xs[i := xs ! (i - 1) + xs ! i])
       [first ..< first + count] xs"

definition merge_nodes ::
  "('v \<Rightarrow> 'v \<Rightarrow> 'v) \<Rightarrow> ('v, 'm) custom_node_scheme list \<Rightarrow> nat list \<Rightarrow> nat list \<Rightarrow> nat \<Rightarrow> nat
     \<Rightarrow> nat \<Rightarrow> nat \<Rightarrow> ('v, 'm) custom_node_scheme list \<Rightarrow> ('v, 'm) custom_node_scheme list" where
  "merge_nodes ext input neighbors merged_index begin end unmerged_begin children_begin output =
     fold (\<lambda>i output.
        let j = neighbors ! i
        in if neighbors ! j = i then
             (if i < j then
                let slot = unmerged_begin + j - begin - merged_index ! j;
                    first_child = children_begin + (merged_index ! i - 1) * 2;
                    unmerged_node = (output ! slot)
                      \<lparr>bounds := ext (bounds (input ! j)) (bounds (input ! i)),
                       is_leaf := False,
                       first_child_or_primitive := first_child\<rparr>
                in (output[slot := unmerged_node])
                     [first_child + 0 := input ! i, first_child + 1 := input ! j]
              else output)
           else output[unmerged_begin + i - begin - merged_index ! i := input ! i])
       [begin ..< end] output"

definition copy_previous_level ::
  "'a list \<Rightarrow> nat \<Rightarrow> nat \<Rightarrow> 'a list \<Rightarrow> 'a list" where
  "copy_previous_level input end previous_end output =
     fold (\<lambda>i output. output[i := input ! i]) [end ..< previous_end] output"

text \<open>
  The sizes and starts of the output sub-ranges, computed after the prefix sum:
  \<open>(merged_count, unmerged_count, children_count, children_begin, unmerged_begin)\<close>.
\<close>

definition window_ranges :: "nat list \<Rightarrow> nat \<Rightarrow> nat \<Rightarrow> nat \<times> nat \<times> nat \<times> nat \<times> nat" where
  "window_ranges merged_index begin end =
     (let merged_count = merged_index ! (end - 1);
          unmerged_count = end - begin - merged_count;
          children_count = merged_count * 2;
          children_begin = end - children_count;
          unmerged_begin = end - (children_count + unmerged_count)
      in (merged_count, unmerged_count, children_count, children_begin, unmerged_begin))"

text \<open>
  \<open>cluster\<close>: both overloads have this body (the first one also asserts that no
  distance is not-a-number). \<open>thread_count\<close> is what \<open>bvh__get_num_threads()\<close> returns in
  the parallel region. The result is the output array, the two scratch arrays and the next
  active window.
\<close>

definition cluster ::
  "('v \<Rightarrow> 'v \<Rightarrow> 'v) \<Rightarrow> ('v \<Rightarrow> 's) \<Rightarrow> ('s::{linorder,zero}) \<Rightarrow> nat \<Rightarrow> nat
     \<Rightarrow> ('v, 'm) custom_node_scheme list \<Rightarrow> ('v, 'm) custom_node_scheme list
     \<Rightarrow> nat list \<Rightarrow> nat list \<Rightarrow> nat \<Rightarrow> nat \<Rightarrow> nat
     \<Rightarrow> error + (('v, 'm) custom_node_scheme list \<times> nat list \<times> nat list \<times> nat \<times> nat)" where
  "cluster ext half_area smax search_radius thread_count
       input output neighbors merged_index begin end previous_end =
     (case team_search
             (thread_search (distance ext half_area input) smax search_radius begin end
                thread_count)
             [0 ..< thread_count] neighbors of
        Inl e \<Rightarrow> Inl e
      | Inr neighbors' \<Rightarrow>
          let merged_index' =
                sum_in_parallel (mark_merged neighbors' begin end merged_index) begin (end - begin);
              (merged_count, unmerged_count, children_count, children_begin, unmerged_begin) =
                window_ranges merged_index' begin end;
              next_begin = unmerged_begin;
              next_end = children_begin;
              output' = merge_nodes ext input neighbors' merged_index' begin end
                          unmerged_begin children_begin output;
              output'' = copy_previous_level input end previous_end output'
          in Inr (output'', neighbors', merged_index', next_begin, next_end))"

section \<open>Build orchestration\<close>

text \<open>
  Local variables that share a name with a field of the tree or of a node carry a prime
  (\<open>nodes'\<close>, \<open>primitive_count'\<close>, \<open>primitive_indices'\<close>, \<open>node_count'\<close>).

  The round loop of the four \<open>build\<close> overloads. \<open>threads n\<close> is the size of the team the
  runtime gives a round over a window of \<open>n\<close> nodes (one when
  \<open>n \<le> loop_parallel_threshold\<close>). A loop that does not end has no value.
\<close>

partial_function (option) cluster_loop ::
  "('v \<Rightarrow> 'v \<Rightarrow> 'v) \<Rightarrow> ('v \<Rightarrow> 's) \<Rightarrow> ('s::{linorder,zero}) \<Rightarrow> nat \<Rightarrow> (nat \<Rightarrow> nat)
     \<Rightarrow> ('v, 'm) custom_node_scheme list \<Rightarrow> ('v, 'm) custom_node_scheme list
     \<Rightarrow> nat list \<Rightarrow> nat list \<Rightarrow> nat \<Rightarrow> nat \<Rightarrow> nat
     \<Rightarrow> (error + (('v, 'm) custom_node_scheme list \<times> nat \<times> nat)) option" where
  "cluster_loop ext half_area smax search_radius threads
       nodes' nodes_copy neighbors merged_index begin end previous_end =
     (if end - begin > 1 then
        (case cluster ext half_area smax search_radius (threads (end - begin))
                nodes' nodes_copy neighbors merged_index begin end previous_end of
           Inl e \<Rightarrow> Some (Inl e)
         | Inr (output, neighbors', merged_index', next_begin, next_end) \<Rightarrow>
             cluster_loop ext half_area smax search_radius threads
               output nodes' neighbors' merged_index' next_begin next_end end)
      else Some (Inr (nodes', begin, end)))"

declare cluster_loop.simps [code]

definition create_leaves ::
  "'v list \<Rightarrow> nat list \<Rightarrow> nat \<Rightarrow> nat \<Rightarrow> ('v, 'm) custom_node_scheme list
     \<Rightarrow> ('v, 'm) custom_node_scheme list" where
  "create_leaves bboxes primitive_indices' primitive_count' begin nodes' =
     fold (\<lambda>i nodes'.
        nodes'[begin + i := (nodes' ! (begin + i))
          \<lparr>bounds := bboxes ! (primitive_indices' ! i),
           is_leaf := True,
           primitive_count := 1,
           first_child_or_primitive := i\<rparr>])
       [0 ..< primitive_count'] nodes'"

text \<open>
  The body the three non-hybrid overloads share, up to the swaps into the tree.
  \<open>primitive_indices'\<close> is what \<open>sort_primitives_by_morton_code\<close> (an external
  collaborator) returned; \<open>blank\<close> is a value-initialised node. The scratch
  arrays are the two parts of \<open>auxiliary_data\<close> the rounds use.
\<close>

definition build_nodes ::
  "('v \<Rightarrow> 'v \<Rightarrow> 'v) \<Rightarrow> ('v \<Rightarrow> 's) \<Rightarrow> ('s::{linorder,zero}) \<Rightarrow> nat \<Rightarrow> (nat \<Rightarrow> nat)
     \<Rightarrow> ('v, 'm) custom_node_scheme \<Rightarrow> 'v list \<Rightarrow> nat list \<Rightarrow> nat
     \<Rightarrow> (error + (('v, 'm) custom_node_scheme list \<times> nat \<times> nat)) option" where
  "build_nodes ext half_area smax search_radius threads blank
       bboxes primitive_indices' primitive_count' =
     (let node_count' = 2 * primitive_count' - 1;
          nodes0 = replicate node_count' blank;
          nodes_copy = replicate node_count' blank;
          neighbors = replicate node_count' 0;
          merged_index = replicate node_count' 0;
          begin = node_count' - primitive_count';
          end = node_count';
          previous_end = end;
          nodes' = create_leaves bboxes primitive_indices' primitive_count' begin nodes0
      in cluster_loop ext half_area smax search_radius threads
           nodes' nodes_copy neighbors merged_index begin end previous_end)"

definition default_custom_node :: "'v \<Rightarrow> 'v custom_node" where
  "default_custom_node zero_volume =
     \<lparr>bounds = zero_volume, is_leaf = False, primitive_count = 0, first_child_or_primitive = 0\<rparr>"

definition default_node :: "'v \<Rightarrow> 'v node" where
  "default_node zero_volume =
     \<lparr>bounds = zero_volume, is_leaf = False, primitive_count = 0, first_child_or_primitive = 0,
      origin = 0\<rparr>"

text \<open>The original build function: boxes throughout, the tree's \<open>nodes\<close>.\<close>

definition build_box ::
  "('b \<Rightarrow> 'b \<Rightarrow> 'b) \<Rightarrow> ('b \<Rightarrow> 's) \<Rightarrow> ('s::{linorder,zero}) \<Rightarrow> nat \<Rightarrow> (nat \<Rightarrow> nat) \<Rightarrow> 'b
     \<Rightarrow> ('b, 'c) bvh \<Rightarrow> 'b list \<Rightarrow> nat list \<Rightarrow> nat \<Rightarrow> (error + ('b, 'c) bvh) option" where
  "build_box ext half_area smax search_radius threads zero_volume
       tree bboxes primitive_indices' primitive_count' =
     (case build_nodes ext half_area smax search_radius threads (default_node zero_volume)
             bboxes primitive_indices' primitive_count' of
        None \<Rightarrow> None
      | Some (Inl e) \<Rightarrow> Some (Inl e)
      | Some (Inr (nodes', begin, end)) \<Rightarrow>
          Some (Inr (tree\<lparr>nodes := nodes', primitive_indices := primitive_indices',
                          node_count := 2 * primitive_count' - 1\<rparr>)))"

text \<open>
  The two cylinder builds (global bound a box or a cylinder; the bound is read by the
  sorter only): cylinders throughout, the tree's \<open>cnodes\<close>.
\<close>

definition build_cyl ::
  "('c \<Rightarrow> 'c \<Rightarrow> 'c) \<Rightarrow> ('c \<Rightarrow> 's) \<Rightarrow> ('s::{linorder,zero}) \<Rightarrow> nat \<Rightarrow> (nat \<Rightarrow> nat) \<Rightarrow> 'c
     \<Rightarrow> ('b, 'c) bvh \<Rightarrow> 'c list \<Rightarrow> nat list \<Rightarrow> nat \<Rightarrow> (error + ('b, 'c) bvh) option" where
  "build_cyl ext half_area smax search_radius threads zero_volume
       tree bboxes primitive_indices' primitive_count' =
     (case build_nodes ext half_area smax search_radius threads
             (default_custom_node zero_volume) bboxes primitive_indices' primitive_count' of
        None \<Rightarrow> None
      | Some (Inl e) \<Rightarrow> Some (Inl e)
      | Some (Inr (nodes', begin, end)) \<Rightarrow>
          Some (Inr (tree\<lparr>cnodes := nodes', primitive_indices := primitive_indices',
                          node_count := 2 * primitive_count' - 1\<rparr>)))"

text \<open>
  The hybrid build. Its first loop counts the rounds in \<open>k\<close> and leaves when \<open>k\<close>, after
  the increment, equals \<open>iteration\<close>.
\<close>

partial_function (option) cylinder_loop ::
  "('v \<Rightarrow> 'v \<Rightarrow> 'v) \<Rightarrow> ('v \<Rightarrow> 's) \<Rightarrow> ('s::{linorder,zero}) \<Rightarrow> nat \<Rightarrow> (nat \<Rightarrow> nat) \<Rightarrow> nat \<Rightarrow> nat
     \<Rightarrow> ('v, 'm) custom_node_scheme list \<Rightarrow> ('v, 'm) custom_node_scheme list
     \<Rightarrow> nat list \<Rightarrow> nat list \<Rightarrow> nat \<Rightarrow> nat \<Rightarrow> nat
     \<Rightarrow> (error + (('v, 'm) custom_node_scheme list \<times> nat list \<times> nat list \<times> nat \<times> nat \<times> nat \<times> nat))
          option" where
  "cylinder_loop ext half_area smax search_radius threads iteration k
       nodes' nodes_copy neighbors merged_index begin end previous_end =
     (if end - begin > 1 then
        (case cluster ext half_area smax search_radius (threads (end - begin))
                nodes' nodes_copy neighbors merged_index begin end previous_end of
           Inl e \<Rightarrow> Some (Inl e)
         | Inr (output, neighbors', merged_index', next_begin, next_end) \<Rightarrow>
             if k + 1 = iteration
             then Some (Inr (output, neighbors', merged_index', next_begin, next_end, end, k + 1))
             else cylinder_loop ext half_area smax search_radius threads iteration (k + 1)
                    output nodes' neighbors' merged_index' next_begin next_end end)
      else Some (Inr (nodes', neighbors, merged_index, begin, end, previous_end, k)))"

declare cylinder_loop.simps [code]

text \<open>"make an AABB from every cylinder": the loop runs over \<open>i < primitive_count\<close>.\<close>

definition make_aabbs ::
  "('c \<Rightarrow> 'b) \<Rightarrow> 'c custom_node list \<Rightarrow> nat \<Rightarrow> nat \<Rightarrow> nat \<Rightarrow> 'b node list \<Rightarrow> 'b node list" where
  "make_aabbs AABB nodes' primitive_count' begin end bnodes =
     fold (\<lambda>i bnodes.
        let mynode = (bnodes ! i)
              \<lparr>bounds := AABB (bounds (nodes' ! i)),
               is_leaf := is_leaf (nodes' ! i),
               primitive_count := primitive_count (nodes' ! i),
               first_child_or_primitive := first_child_or_primitive (nodes' ! i),
               origin := i\<rparr>;
            mynode' = (if i \<ge> begin \<and> i < end then mynode\<lparr>is_leaf := True\<rparr> else mynode)
        in bnodes[i := mynode'])
       [0 ..< primitive_count'] bnodes"

definition build_hybrid ::
  "('c \<Rightarrow> 'c \<Rightarrow> 'c) \<Rightarrow> ('c \<Rightarrow> 's) \<Rightarrow> ('b \<Rightarrow> 'b \<Rightarrow> 'b) \<Rightarrow> ('b \<Rightarrow> 's) \<Rightarrow> ('c \<Rightarrow> 'b)
     \<Rightarrow> ('s::{linorder,zero}) \<Rightarrow> nat \<Rightarrow> (nat \<Rightarrow> nat) \<Rightarrow> 'c \<Rightarrow> 'b
     \<Rightarrow> ('b, 'c) bvh \<Rightarrow> 'c list \<Rightarrow> nat list \<Rightarrow> nat \<Rightarrow> nat \<Rightarrow> (error + ('b, 'c) bvh) option" where
  "build_hybrid ext_cyl half_area_cyl ext_box half_area_box AABB
       smax search_radius threads zero_cyl zero_box
       tree bboxes primitive_indices' primitive_count' iteration =
     (let node_count' = 2 * primitive_count' - 1;
          nodes0 = replicate node_count' (default_custom_node zero_cyl);
          nodes_copy = replicate node_count' (default_custom_node zero_cyl);
          neighbors = replicate node_count' 0;
          merged_index = replicate node_count' 0;
          begin = node_count' - primitive_count';
          end = node_count';
          previous_end = end;
          nodes1 = create_leaves bboxes primitive_indices' primitive_count' begin nodes0
      in case cylinder_loop ext_cyl half_area_cyl smax search_radius threads iteration 0
                nodes1 nodes_copy neighbors merged_index begin end previous_end of
           None \<Rightarrow> None
         | Some (Inl e) \<Rightarrow> Some (Inl e)
         | Some (Inr (nodes', neighbors', merged_index', begin', end', previous_end', k)) \<Rightarrow>
             let bnode_count = 2 * primitive_count' - 1;
                 bnodes0 = replicate bnode_count (default_node zero_box);
                 bnodes_copy = replicate bnode_count (default_node zero_box);
                 bnodes = make_aabbs AABB nodes' primitive_count' begin' end' bnodes0
             in (case cluster_loop ext_box half_area_box smax search_radius threads
                        bnodes bnodes_copy neighbors' merged_index' begin' end' previous_end' of
                   None \<Rightarrow> None
                 | Some (Inl e) \<Rightarrow> Some (Inl e)
                 | Some (Inr (bnodes', begin'', end'')) \<Rightarrow>
                     Some (Inr (tree\<lparr>nodes := bnodes', cnodes := nodes',
                                     primitive_indices := primitive_indices',
                                     node_count := node_count'\<rparr>))))"

section \<open>Definitions used in the proofs\<close>

definition scan_best :: "(nat \<Rightarrow> 's::linorder) \<Rightarrow> nat list \<Rightarrow> 's \<times> nat option \<Rightarrow> 's \<times> nat option" where
  "scan_best c js best =
     fold (\<lambda>j (bd, bn). if c j < bd then (c j, Some j) else (bd, bn)) js best"

definition fill_row :: "(nat \<Rightarrow> 's) \<Rightarrow> nat \<Rightarrow> nat list \<Rightarrow> 's list \<Rightarrow> 's list" where
  "fill_row f i js row = fold (\<lambda>j row. row[j - i - 1 := f j]) js row"

definition cache_ok ::
  "(nat \<Rightarrow> nat \<Rightarrow> 's) \<Rightarrow> nat \<Rightarrow> nat \<Rightarrow> nat \<Rightarrow> nat \<Rightarrow> 's list list \<Rightarrow> bool" where
  "cache_ok d R begin end i dm \<longleftrightarrow>
     length dm = R + 1 \<and> (\<forall>k \<le> R. length (dm ! k) = R) \<and>
     (\<forall>k m. 1 \<le> k \<and> k \<le> R \<and> begin + k \<le> i \<and> m < R \<and> i - k + m + 1 < end
        \<longrightarrow> dm ! k ! m = d (i - k) (i - k + m + 1))"

definition nearest_ordered ::
  "(nat \<Rightarrow> nat \<Rightarrow> 's::linorder) \<Rightarrow> 's \<Rightarrow> nat \<Rightarrow> nat \<Rightarrow> nat \<Rightarrow> nat \<Rightarrow> nat option" where
  "nearest_ordered d smax R begin end i =
     (let (sb, se) = search_range R i begin end
      in snd (scan_best (d i) [i + 1..<se] (scan_best (\<lambda>j. d j i) [sb..<i] (smax, None))))"

definition neighbor_table :: "(nat \<Rightarrow> nat option) \<Rightarrow> nat \<Rightarrow> nat \<Rightarrow> nat list \<Rightarrow> nat list" where
  "neighbor_table ref a b nbs = fold (\<lambda>i nbs. nbs[i := the (ref i)]) [a..<b] nbs"

definition search_fails :: "(nat \<Rightarrow> nat option) \<Rightarrow> nat \<Rightarrow> nat \<Rightarrow> bool" where
  "search_fails ref a b \<longleftrightarrow> (\<exists>i. a \<le> i \<and> i < b \<and> ref i = None)"

definition search_result :: "(nat \<Rightarrow> nat option) \<Rightarrow> nat \<Rightarrow> nat \<Rightarrow> nat list \<Rightarrow> error + nat list" where
  "search_result ref a b nbs =
     (if search_fails ref a b then Inl Assertion_failed else Inr (neighbor_table ref a b nbs))"

definition candidates :: "nat \<Rightarrow> nat \<Rightarrow> nat \<Rightarrow> nat \<Rightarrow> nat list" where
  "candidates R begin end i =
     [fst (search_range R i begin end)..<i] @ [i + 1..<snd (search_range R i begin end)]"

definition ordered_cost :: "(nat \<Rightarrow> nat \<Rightarrow> 's) \<Rightarrow> nat \<Rightarrow> nat \<Rightarrow> 's" where
  "ordered_cost d i j = (if j < i then d j i else d i j)"

definition merge_flag :: "nat list \<Rightarrow> nat \<Rightarrow> nat" where
  "merge_flag nbs i = (if i < nbs ! i \<and> nbs ! (nbs ! i) = i then 1 else 0)"

definition pair_rank :: "nat list \<Rightarrow> nat \<Rightarrow> nat \<Rightarrow> nat" where
  "pair_rank nbs begin i = (\<Sum>k = begin..<i. merge_flag nbs k)"

text \<open>Valid neighbors: every node of the window has a neighbor in the window, not itself.\<close>

definition valid_neighbors :: "nat list \<Rightarrow> nat \<Rightarrow> nat \<Rightarrow> bool" where
  "valid_neighbors nbs begin end \<longleftrightarrow>
     (\<forall>i. begin \<le> i \<and> i < end \<longrightarrow> begin \<le> nbs ! i \<and> nbs ! i < end \<and> nbs ! i \<noteq> i)"

definition new_index :: "nat list \<Rightarrow> nat \<Rightarrow> nat \<Rightarrow> nat \<Rightarrow> nat" where
  "new_index nbs begin ub i = ub + i - begin - pair_rank nbs begin (Suc i)"

definition child_index :: "nat list \<Rightarrow> nat \<Rightarrow> nat \<Rightarrow> nat \<Rightarrow> nat" where
  "child_index nbs begin cb i = cb + (pair_rank nbs begin (Suc i) - 1) * 2"

definition round_ok :: "nat list \<Rightarrow> nat list \<Rightarrow> nat \<Rightarrow> nat \<Rightarrow> nat \<Rightarrow> nat \<Rightarrow> bool" where
  "round_ok nbs mi begin end ub cb \<longleftrightarrow>
     valid_neighbors nbs begin end \<and>
     (\<forall>i. begin \<le> i \<and> i < end \<longrightarrow> mi ! i = pair_rank nbs begin (Suc i)) \<and>
     ub + pair_rank nbs begin end = begin \<and> cb + 2 * pair_rank nbs begin end = end"

definition merge_step ::
  "('v \<Rightarrow> 'v \<Rightarrow> 'v) \<Rightarrow> ('v, 'm) custom_node_scheme list \<Rightarrow> nat list \<Rightarrow> nat list \<Rightarrow> nat
     \<Rightarrow> nat \<Rightarrow> nat \<Rightarrow> nat \<Rightarrow> ('v, 'm) custom_node_scheme list \<Rightarrow> ('v, 'm) custom_node_scheme list" where
  "merge_step ext input nbs mi begin ub cb i output =
     (let j = nbs ! i
      in if nbs ! j = i then
           (if i < j then
              let slot = ub + j - begin - mi ! j;
                  first_child = cb + (mi ! i - 1) * 2;
                  unmerged_node = (output ! slot)
                    \<lparr>bounds := ext (bounds (input ! j)) (bounds (input ! i)),
                     is_leaf := False,
                     first_child_or_primitive := first_child\<rparr>
              in (output[slot := unmerged_node])
                   [first_child + 0 := input ! i, first_child + 1 := input ! j]
            else output)
         else output[ub + i - begin - mi ! i := input ! i])"

definition merge_targets :: "nat list \<Rightarrow> nat list \<Rightarrow> nat \<Rightarrow> nat \<Rightarrow> nat \<Rightarrow> nat \<Rightarrow> nat set" where
  "merge_targets nbs mi begin ub cb i =
     (let j = nbs ! i
      in if nbs ! j = i then
           (if i < j then {ub + j - begin - mi ! j, cb + (mi ! i - 1) * 2, cb + (mi ! i - 1) * 2 + 1}
            else {})
         else {ub + i - begin - mi ! i})"

definition window_room :: "nat \<Rightarrow> nat \<Rightarrow> bool" where
  "window_room begin end \<longleftrightarrow> begin < end \<and> end - begin \<le> 2 * begin + 1"


definition interval_extend :: "nat \<times> nat \<Rightarrow> nat \<times> nat \<Rightarrow> nat \<times> nat" where
  "interval_extend a b = (min (fst a) (fst b), max (snd a) (snd b))"

definition interval_half_area :: "nat \<times> nat \<Rightarrow> nat" where
  "interval_half_area a = snd a - fst a"

definition leaf_box :: "nat \<times> nat \<Rightarrow> nat \<Rightarrow> (nat \<times> nat) node" where
  "leaf_box b i =
     \<lparr>bounds = b, is_leaf = True, primitive_count = 1, first_child_or_primitive = i, origin = 0\<rparr>"

definition two_leaves :: "(nat \<times> nat) node list" where
  "two_leaves = [default_node (0, 0), leaf_box (0, 1) 0, leaf_box (10, 11) 1]"

definition two_leaves_merged :: "(nat \<times> nat) node list" where
  "two_leaves_merged =
     [\<lparr>bounds = (0, 11), is_leaf = False, primitive_count = 0, first_child_or_primitive = 1,
       origin = 0\<rparr>,
      leaf_box (0, 1) 0, leaf_box (10, 11) 1]"

definition empty_tree :: "(nat \<times> nat, nat \<times> nat) bvh" where
  "empty_tree = \<lparr>nodes = [], cnodes = [], primitive_indices = [], cylinder = False,
                  hybrid = False, node_count = 0\<rparr>"

text \<open>
  Fixtures for the hybrid build: four cylinders on a line (as intervals), and the arenas of
  the hybrid build on them after one cylinder round.
\<close>

definition four_cylinders :: "(nat \<times> nat) list" where
  "four_cylinders = [(5, 6), (10, 11), (12, 13), (30, 31)]"

definition handoff_cylinders :: "(nat \<times> nat) custom_node list" where
  "handoff_cylinders =
     [default_custom_node (0, 0), default_custom_node (0, 0),
      \<lparr>bounds = (5, 6), is_leaf = True, primitive_count = 1, first_child_or_primitive = 0\<rparr>,
      \<lparr>bounds = (10, 13), is_leaf = False, primitive_count = 0, first_child_or_primitive = 5\<rparr>,
      \<lparr>bounds = (30, 31), is_leaf = True, primitive_count = 1, first_child_or_primitive = 3\<rparr>,
      \<lparr>bounds = (10, 11), is_leaf = True, primitive_count = 1, first_child_or_primitive = 1\<rparr>,
      \<lparr>bounds = (12, 13), is_leaf = True, primitive_count = 1, first_child_or_primitive = 2\<rparr>]"

definition handoff_boxes :: "(nat \<times> nat) node list" where
  "handoff_boxes =
     [\<lparr>bounds = (0, 0), is_leaf = False, primitive_count = 0, first_child_or_primitive = 0,
       origin = 0\<rparr>,
      \<lparr>bounds = (0, 0), is_leaf = False, primitive_count = 0, first_child_or_primitive = 0,
       origin = 1\<rparr>,
      \<lparr>bounds = (5, 6), is_leaf = True, primitive_count = 1, first_child_or_primitive = 0,
       origin = 2\<rparr>,
      \<lparr>bounds = (10, 13), is_leaf = True, primitive_count = 0, first_child_or_primitive = 5,
       origin = 3\<rparr>,
      default_node (0, 0), default_node (0, 0), default_node (0, 0)]"

definition hybrid_four :: "(error + (nat \<times> nat, nat \<times> nat) bvh) option" where
  "hybrid_four =
     build_hybrid interval_extend interval_half_area interval_extend interval_half_area (\<lambda>c. c)
       1000 10 (\<lambda>n. 1) (0, 0) (0, 0) empty_tree four_cylinders [0, 1, 2, 3] 4 1"

definition hybrid_four_nodes :: "(nat \<times> nat) node list" where
  "hybrid_four_nodes =
     [\<lparr>bounds = (0, 13), is_leaf = False, primitive_count = 0, first_child_or_primitive = 1,
       origin = 0\<rparr>,
      \<lparr>bounds = (10, 13), is_leaf = True, primitive_count = 0, first_child_or_primitive = 5,
       origin = 3\<rparr>,
      \<lparr>bounds = (0, 6), is_leaf = False, primitive_count = 0, first_child_or_primitive = 3,
       origin = 0\<rparr>,
      \<lparr>bounds = (5, 6), is_leaf = True, primitive_count = 1, first_child_or_primitive = 0,
       origin = 2\<rparr>,
      default_node (0, 0), default_node (0, 0), default_node (0, 0)]"















section \<open>Generic facts about loops that write array slots\<close>

lemma fold_upt_Suc: "a \<le> b \<Longrightarrow> fold f [a..<Suc b] x = f b (fold f [a..<b] x)"
  by simp

lemma fold_update_length [simp]:
  "length (fold (\<lambda>i xs. xs[g i := h i xs]) js xs) = length xs"
  by (induction js arbitrary: xs) simp_all

lemma fold_update_other:
  "a \<notin> g ` set js \<Longrightarrow> fold (\<lambda>i xs. xs[g i := h i xs]) js xs ! a = xs ! a"
  by (induction js arbitrary: xs) simp_all

lemma fold_update_at:
  assumes "distinct (map g js)" "i \<in> set js" "g i < length xs"
  shows "fold (\<lambda>i xs. xs[g i := H i (xs ! g i)]) js xs ! g i = H i (xs ! g i)"
  using assms
proof (induction js arbitrary: xs)
  case Nil
  then show ?case by simp
next
  case (Cons j js)
  show ?case
  proof (cases "i = j")
    case True
    have "g j \<notin> g ` set js" using Cons.prems(1) by auto
    then have "fold (\<lambda>i xs. xs[g i := H i (xs ! g i)]) js (xs[g j := H j (xs ! g j)]) ! g j
        = (xs[g j := H j (xs ! g j)]) ! g j"
      by (rule fold_update_other)
    then show ?thesis using True Cons.prems(3) by simp
  next
    case False
    then have in_js: "i \<in> set js" using Cons.prems(2) by simp
    have "g j \<notin> g ` set js" using Cons.prems(1) by auto
    then have ne: "g i \<noteq> g j" using in_js by (metis imageI)
    have "fold (\<lambda>i xs. xs[g i := H i (xs ! g i)]) js (xs[g j := H j (xs ! g j)]) ! g i
        = H i ((xs[g j := H j (xs ! g j)]) ! g i)"
      using Cons.IH[of "xs[g j := H j (xs ! g j)]"] Cons.prems in_js by simp
    then show ?thesis using ne by simp
  qed
qed

section \<open>The scan for the best neighbor\<close>

lemma scan_best_Nil [simp]: "scan_best c [] best = best"
  by (simp add: scan_best_def)

lemma scan_best_Cons [simp]:
  "scan_best c (j # js) (bd, bn) = scan_best c js (if c j < bd then (c j, Some j) else (bd, bn))"
  by (simp add: scan_best_def)

lemma scan_best_append: "scan_best c (xs @ ys) best = scan_best c ys (scan_best c xs best)"
  by (simp add: scan_best_def)

lemma scan_best_cong:
  "(\<And>j. j \<in> set js \<Longrightarrow> c j = c' j) \<Longrightarrow> scan_best c js best = scan_best c' js best"
  unfolding scan_best_def by (rule fold_cong) auto

lemma backward_search_scan:
  assumes "\<And>j. sb \<le> j \<Longrightarrow> j < i \<Longrightarrow> dm ! (i - j) ! (i - j - 1) = c j"
  shows "backward_search dm i sb best = scan_best c [sb..<i] best"
  unfolding backward_search_def scan_best_def
  by (rule fold_cong) (use assms in \<open>auto simp: Let_def\<close>)

lemma fold_matrix_set_row:
  "fold (\<lambda>j dm. matrix_set dm a (j - i - 1) (f j)) js dm = dm[a := fill_row f i js (dm ! a)]"
proof (induction js arbitrary: dm)
  case Nil
  then show ?case by (simp add: fill_row_def)
next
  case (Cons j js)
  show ?case
  proof (cases "a < length dm")
    case True
    then show ?thesis using Cons.IH[of "matrix_set dm a (j - i - 1) (f j)"]
      by (simp add: matrix_set_def fill_row_def)
  next
    case False
    then show ?thesis using Cons.IH[of "matrix_set dm a (j - i - 1) (f j)"]
      by (simp add: matrix_set_def fill_row_def list_update_beyond)
  qed
qed

lemma length_fill_row [simp]: "length (fill_row f i js row) = length row"
  unfolding fill_row_def by (rule fold_update_length)

lemma fill_row_nth:
  assumes "m < length row" "i + 1 + m < se"
  shows "fill_row f i [i + 1..<se] row ! m = f (i + 1 + m)"
proof -
  have d: "distinct (map (\<lambda>j. j - i - 1) [i + 1..<se])"
    by (auto simp: distinct_map inj_on_def)
  have "fold (\<lambda>j row. row[(\<lambda>j. j - i - 1) j := (\<lambda>j _. f j) j (row ! (\<lambda>j. j - i - 1) j)]) [i + 1..<se] row
          ! ((\<lambda>j. j - i - 1) (i + 1 + m)) = (\<lambda>j _. f j) (i + 1 + m) (row ! ((\<lambda>j. j - i - 1) (i + 1 + m)))"
    by (rule fold_update_at[OF d]) (use assms in auto)
  then show ?thesis by (simp add: fill_row_def)
qed

lemma forward_search_split:
  "fold (\<lambda>j (dm, best_distance, best_neighbor).
        let d = dist i j;
            dm' = matrix_set dm 0 (j - i - 1) d
        in if d < best_distance then (dm', d, Some j) else (dm', best_distance, best_neighbor))
       js (dm, best)
   = (fold (\<lambda>j dm. matrix_set dm 0 (j - i - 1) (dist i j)) js dm, scan_best (dist i) js best)"
proof (induction js arbitrary: dm best)
  case Nil
  then show ?case by simp
next
  case (Cons j js)
  obtain bd bn where b: "best = (bd, bn)" by (cases best)
  show ?case unfolding b
    using Cons.IH[of "matrix_set dm 0 (j - i - 1) (dist i j)" "(dist i j, Some j)"]
      Cons.IH[of "matrix_set dm 0 (j - i - 1) (dist i j)" "(bd, bn)"]
    by (simp add: Let_def)
qed

lemma forward_search_eq:
  "forward_search dist i se (dm, best)
   = (dm[0 := fill_row (dist i) i [i + 1..<se] (dm ! 0)], scan_best (dist i) [i + 1..<se] best)"
  unfolding forward_search_def forward_search_split fold_matrix_set_row ..

section \<open>The distance matrix caches the ordered distances\<close>

lemma init_distance_matrix_eq:
  "init_distance_matrix d R begin end cb dm =
     fold (\<lambda>i dm. dm[cb - i := fill_row (d i) i [i + 1..<snd (search_range R i begin end)] (dm ! (cb - i))])
       [fst (search_range R cb begin end)..<cb] dm"
  unfolding init_distance_matrix_def Let_def fold_matrix_set_row ..

lemma cache_ok_init:
  assumes "begin \<le> cb"
  shows "cache_ok d R begin end cb (init_distance_matrix d R begin end cb (new_distance_matrix R))"
proof -
  let ?sb = "fst (search_range R cb begin end)"
  let ?g = "\<lambda>i. cb - i"
  let ?H = "\<lambda>i row. fill_row (d i) i [i + 1..<snd (search_range R i begin end)] row"
  let ?zm = "new_distance_matrix R :: 'a list list"
  let ?dm = "fold (\<lambda>i dm. dm[?g i := ?H i (dm ! ?g i)]) [?sb..<cb] ?zm"
  have eq: "init_distance_matrix d R begin end cb ?zm = ?dm"
    by (rule init_distance_matrix_eq)
  have dist: "distinct (map ?g [?sb..<cb])"
    by (auto simp: distinct_map inj_on_def)
  have len0: "length ?zm = R + 1"
    by (simp add: new_distance_matrix_def)
  have row0: "length (?zm ! k) = R" if "k \<le> R" for k
    unfolding new_distance_matrix_def using that by (simp del: replicate_Suc replicate.simps)
  have len: "length ?dm = R + 1" using len0 by simp
  have sb: "?sb = (if cb > begin + R then cb - R else begin)"
    by (simp add: search_range_def)
  have at: "?dm ! ?g i = ?H i (?zm ! ?g i)" if "?sb \<le> i" "i < cb" for i
  proof (rule fold_update_at[OF dist])
    show "i \<in> set [?sb..<cb]" using that by simp
    show "cb - i < length ?zm" using that len0 sb by (auto split: if_splits)
  qed
  have rows: "length (?dm ! k) = R" if "k \<le> R" for k
  proof (cases "k \<in> ?g ` set [?sb..<cb]")
    case True
    then obtain i where i: "?sb \<le> i" "i < cb" "k = cb - i" by auto
    show ?thesis using at[OF i(1,2)] i(3) row0[OF that] by simp
  next
    case False
    then have "?dm ! k = ?zm ! k" by (rule fold_update_other)
    then show ?thesis using row0[OF that] by simp
  qed
  have content: "?dm ! k ! m = d (cb - k) (cb - k + m + 1)"
    if "1 \<le> k" "k \<le> R" "begin + k \<le> cb" "m < R" "cb - k + m + 1 < end" for k m
  proof -
    let ?i = "cb - k"
    have i: "?sb \<le> ?i" "?i < cb" using that sb by (auto split: if_splits)
    have k: "cb - ?i = k" using that by simp
    have "?dm ! k = ?H ?i (?zm ! k)" using at[OF i] k by simp
    moreover have "?H ?i (?zm ! k) ! m = d ?i (?i + 1 + m)"
    proof (rule fill_row_nth)
      show "m < length (?zm ! k)" using row0[OF that(2)] that(4) by simp
      show "?i + 1 + m < snd (search_range R ?i begin end)"
        using that by (simp add: search_range_def)
    qed
    ultimately show ?thesis by (simp add: add.commute add.left_commute)
  qed
  show ?thesis unfolding eq cache_ok_def using len rows content by blast
qed

lemma cache_ok_backward:
  assumes "cache_ok d R begin end i dm" "begin \<le> i" "i < end"
  shows "backward_search dm i (fst (search_range R i begin end)) best
         = scan_best (\<lambda>j. d j i) [fst (search_range R i begin end)..<i] best"
proof (rule backward_search_scan)
  fix j assume j: "fst (search_range R i begin end) \<le> j" "j < i"
  have sb: "fst (search_range R i begin end) = (if i > begin + R then i - R else begin)"
    by (simp add: search_range_def)
  have content: "\<And>k m. 1 \<le> k \<Longrightarrow> k \<le> R \<Longrightarrow> begin + k \<le> i \<Longrightarrow> m < R \<Longrightarrow> i - k + m + 1 < end
        \<Longrightarrow> dm ! k ! m = d (i - k) (i - k + m + 1)"
    using assms(1) unfolding cache_ok_def by auto
  have "dm ! (i - j) ! (i - j - 1) = d (i - (i - j)) (i - (i - j) + (i - j - 1) + 1)"
    by (rule content) (use assms j sb in \<open>auto split: if_splits\<close>)
  then show "dm ! (i - j) ! (i - j - 1) = d j i" using j by simp
qed

lemma cache_ok_step:
  assumes ok: "cache_ok d R begin end i dm" and i: "begin \<le> i" "i < end"
  shows "cache_ok d R begin end (Suc i)
           (rotate_distance_matrix R
              (dm[0 := fill_row (d i) i [i + 1..<snd (search_range R i begin end)] (dm ! 0)]))"
proof -
  let ?se = "snd (search_range R i begin end)"
  let ?dm1 = "dm[0 := fill_row (d i) i [i + 1..<?se] (dm ! 0)]"
  let ?dm2 = "rotate_distance_matrix R ?dm1"
  have len: "length dm = R + 1" and rows: "\<And>k. k \<le> R \<Longrightarrow> length (dm ! k) = R"
    and content: "\<And>k m. 1 \<le> k \<Longrightarrow> k \<le> R \<Longrightarrow> begin + k \<le> i \<Longrightarrow> m < R \<Longrightarrow> i - k + m + 1 < end
        \<Longrightarrow> dm ! k ! m = d (i - k) (i - k + m + 1)"
    using ok unfolding cache_ok_def by auto
  have len1: "length ?dm1 = R + 1" using len by simp
  have rows1: "length (?dm1 ! k) = R" if "k \<le> R" for k
    using rows[OF that] rows[of 0] len by (cases k) simp_all
  have se: "?se = min (i + R + 1) end" by (simp add: search_range_def)
  have nth2: "?dm2 ! Suc k = ?dm1 ! k" if "k < R" for k
    using that len1 by (simp add: rotate_distance_matrix_def)
  have nth20: "?dm2 ! 0 = ?dm1 ! R" by (simp add: rotate_distance_matrix_def)
  have len2: "length ?dm2 = R + 1" using len1 by (simp add: rotate_distance_matrix_def)
  have rows2: "length (?dm2 ! k) = R" if "k \<le> R" for k
  proof (cases k)
    case 0
    then show ?thesis using nth20 rows1[of R] by simp
  next
    case (Suc k')
    then show ?thesis using nth2[of k'] rows1[of k'] that by simp
  qed
  have content2: "?dm2 ! k ! m = d (Suc i - k) (Suc i - k + m + 1)"
    if k: "1 \<le> k" "k \<le> R" "begin + k \<le> Suc i" "m < R" "Suc i - k + m + 1 < end" for k m
  proof -
    obtain k' where k': "k = Suc k'" using k(1) by (cases k) auto
    have eq: "?dm2 ! k = ?dm1 ! k'" using nth2[of k'] k k' by simp
    show ?thesis
    proof (cases k')
      case 0
      have "?dm1 ! 0 = fill_row (d i) i [i + 1..<?se] (dm ! 0)" using len by simp
      moreover have "fill_row (d i) i [i + 1..<?se] (dm ! 0) ! m = d i (i + 1 + m)"
        by (rule fill_row_nth) (use k k' 0 rows[of 0] se in auto)
      ultimately show ?thesis using eq 0 k' by simp
    next
      case (Suc k'')
      have "?dm1 ! k' = dm ! k'" using Suc by simp
      moreover have "dm ! k' ! m = d (i - k') (i - k' + m + 1)"
        by (rule content) (use k k' Suc in auto)
      ultimately show ?thesis using eq k' by simp
    qed
  qed
  show ?thesis unfolding cache_ok_def using len2 rows2 content2 by blast
qed

section \<open>The search of a chunk, of a thread and of the team\<close>

lemma neighbor_table_empty [simp]: "b \<le> a \<Longrightarrow> neighbor_table ref a b nbs = nbs"
  by (simp add: neighbor_table_def)

lemma neighbor_table_first:
  "a < b \<Longrightarrow> neighbor_table ref a b nbs = neighbor_table ref (Suc a) b (nbs[a := the (ref a)])"
  by (simp add: neighbor_table_def upt_conv_Cons)

lemma neighbor_table_append:
  "a \<le> b \<Longrightarrow> b \<le> c \<Longrightarrow>
     neighbor_table ref b c (neighbor_table ref a b nbs) = neighbor_table ref a c nbs"
proof -
  assume "a \<le> b" "b \<le> c"
  then have "[a..<c] = [a..<b] @ [b..<c]"
    using upt_add_eq_append[of a b "c - b"] by simp
  then show ?thesis by (simp add: neighbor_table_def)
qed

lemma length_neighbor_table [simp]: "length (neighbor_table ref a b nbs) = length nbs"
  unfolding neighbor_table_def by (rule fold_update_length)

lemma neighbor_table_nth:
  assumes "i < length nbs"
  shows "neighbor_table ref a b nbs ! i = (if a \<le> i \<and> i < b then the (ref i) else nbs ! i)"
proof (cases "a \<le> i \<and> i < b")
  case True
  have "fold (\<lambda>i nbs. nbs[(\<lambda>i. i) i := (\<lambda>i _. the (ref i)) i (nbs ! (\<lambda>i. i) i)]) [a..<b] nbs ! (\<lambda>i. i) i
        = (\<lambda>i _. the (ref i)) i (nbs ! (\<lambda>i. i) i)"
    by (rule fold_update_at) (use True assms in auto)
  then show ?thesis using True by (simp add: neighbor_table_def)
next
  case False
  then have "i \<notin> (\<lambda>i. i) ` set [a..<b]" by auto
  then have "fold (\<lambda>i nbs. nbs[(\<lambda>i. i) i := (\<lambda>i nbs. the (ref i)) i nbs]) [a..<b] nbs ! i = nbs ! i"
    by (rule fold_update_other)
  then have "neighbor_table ref a b nbs ! i = nbs ! i" by (simp add: neighbor_table_def)
  then show ?thesis using False by presburger
qed

lemma search_fails_empty [simp]: "b \<le> a \<Longrightarrow> \<not> search_fails ref a b"
  by (auto simp: search_fails_def)

lemma search_fails_first:
  "a < b \<Longrightarrow> search_fails ref a b \<longleftrightarrow> ref a = None \<or> search_fails ref (Suc a) b"
  unfolding search_fails_def
  by (metis Suc_leI le_neq_implies_less Suc_leD order_refl)

lemma search_fails_split:
  assumes "a \<le> b" "b \<le> c"
  shows "search_fails ref a c \<longleftrightarrow> search_fails ref a b \<or> search_fails ref b c"
proof
  assume "search_fails ref a c"
  then obtain i where i: "a \<le> i" "i < c" "ref i = None" unfolding search_fails_def by blast
  show "search_fails ref a b \<or> search_fails ref b c"
  proof (cases "i < b")
    case True
    then show ?thesis using i unfolding search_fails_def by blast
  next
    case False
    then have "b \<le> i" by simp
    then show ?thesis using i unfolding search_fails_def by blast
  qed
next
  assume "search_fails ref a b \<or> search_fails ref b c"
  then show "search_fails ref a c"
  proof
    assume "search_fails ref a b"
    then obtain i where "a \<le> i" "i < b" "ref i = None" unfolding search_fails_def by blast
    then have "a \<le> i \<and> i < c \<and> ref i = None" using assms by simp
    then show ?thesis unfolding search_fails_def by blast
  next
    assume "search_fails ref b c"
    then obtain i where "b \<le> i" "i < c" "ref i = None" unfolding search_fails_def by blast
    then have "a \<le> i \<and> i < c \<and> ref i = None" using assms by simp
    then show ?thesis unfolding search_fails_def by blast
  qed
qed

lemma search_result_empty [simp]: "b \<le> a \<Longrightarrow> search_result ref a b nbs = Inr nbs"
  by (simp add: search_result_def)

lemma search_result_first:
  assumes "a < b"
  shows "search_result ref a b nbs =
     (case ref a of None \<Rightarrow> Inl Assertion_failed
      | Some n \<Rightarrow> search_result ref (Suc a) b (nbs[a := n]))"
  unfolding search_result_def search_fails_first[OF assms] neighbor_table_first[OF assms]
  by (auto split: option.splits)

lemma search_result_append:
  assumes "a \<le> b" "b \<le> c"
  shows "(case search_result ref a b nbs of Inl e \<Rightarrow> Inl e | Inr nbs' \<Rightarrow> search_result ref b c nbs')
         = search_result ref a c nbs"
  unfolding search_result_def search_fails_split[OF assms, of ref]
  using neighbor_table_append[OF assms, of ref nbs]
  by (cases "search_fails ref a b") simp_all

lemma nearest_neighbor_search_Cons:
  assumes "cache_ok d R begin end i dm" "begin \<le> i" "i < end"
  shows "nearest_neighbor_search d smax R begin end (i # rest) dm nbs =
     (case nearest_ordered d smax R begin end i of
        None \<Rightarrow> Inl Assertion_failed
      | Some n \<Rightarrow>
          nearest_neighbor_search d smax R begin end rest
            (rotate_distance_matrix R
               (dm[0 := fill_row (d i) i [i + 1..<snd (search_range R i begin end)] (dm ! 0)]))
            (nbs[i := n]))"
proof -
  obtain sb se where sr: "search_range R i begin end = (sb, se)"
    by (cases "search_range R i begin end")
  have se: "snd (search_range R i begin end) = se" by (simp add: sr)
  have bw: "backward_search dm i sb (smax, None) = scan_best (\<lambda>j. d j i) [sb..<i] (smax, None)"
    using cache_ok_backward[OF assms, of "(smax, None)"] sr by simp
  show ?thesis unfolding se
    by (simp add: sr bw forward_search_eq nearest_ordered_def split: prod.splits option.splits)
qed

lemma nearest_neighbor_search_correct:
  assumes "cache_ok d R begin end i0 dm" "begin \<le> i0" "ce \<le> end"
  shows "(case nearest_neighbor_search d smax R begin end [i0..<ce] dm nbs of
            Inl e \<Rightarrow> Inl e | Inr (dm', nbs') \<Rightarrow> Inr nbs') =
         search_result (nearest_ordered d smax R begin end) i0 ce nbs"
  using assms
proof (induction "ce - i0" arbitrary: i0 dm nbs)
  case 0
  then show ?case by simp
next
  case (Suc n)
  let ?ref = "nearest_ordered d smax R begin end"
  have lt: "i0 < ce" using Suc.hyps(2) by simp
  then have i0: "i0 < end" using Suc.prems(3) by simp
  have list: "[i0..<ce] = i0 # [Suc i0..<ce]" using lt by (simp add: upt_conv_Cons)
  note step = nearest_neighbor_search_Cons[OF Suc.prems(1,2) i0, of smax "[Suc i0..<ce]" nbs]
  show ?case
  proof (cases "?ref i0")
    case None
    then show ?thesis unfolding list step search_result_first[OF lt] by simp
  next
    case (Some n0)
    let ?dm = "rotate_distance_matrix R
               (dm[0 := fill_row (d i0) i0 [i0 + 1..<snd (search_range R i0 begin end)] (dm ! 0)])"
    have ok: "cache_ok d R begin end (Suc i0) ?dm"
      by (rule cache_ok_step[OF Suc.prems(1,2) i0])
    have n: "n = ce - Suc i0" using Suc.hyps(2) by simp
    have IH: "(case nearest_neighbor_search d smax R begin end [Suc i0..<ce] ?dm (nbs[i0 := n0]) of
            Inl e \<Rightarrow> Inl e | Inr (dm', nbs') \<Rightarrow> Inr nbs') =
         search_result ?ref (Suc i0) ce (nbs[i0 := n0])"
      by (rule Suc.hyps(1)[OF n ok]) (use Suc.prems in auto)
    show ?thesis unfolding list step search_result_first[OF lt] Some option.case by (rule IH)
  qed
qed

lemma chunk_bound: "t < T \<Longrightarrow> Suc t * (n div T) \<le> n" for t T n :: nat
proof -
  assume "t < T"
  then have "Suc t * (n div T) \<le> T * (n div T)" by (intro mult_le_mono1) simp
  also have "\<dots> \<le> n" by simp
  finally show ?thesis .
qed

lemma thread_search_correct:
  assumes "t < T" "begin \<le> end"
  shows "thread_search d smax R begin end T t nbs =
     search_result (nearest_ordered d smax R begin end)
       (begin + t * ((end - begin) div T))
       (if t \<noteq> T - 1 then begin + t * ((end - begin) div T) + (end - begin) div T else end) nbs"
proof -
  let ?cs = "(end - begin) div T"
  let ?cb = "begin + t * ?cs"
  let ?ce = "if t \<noteq> T - 1 then ?cb + ?cs else end"
  have "Suc t * ?cs \<le> end - begin" by (rule chunk_bound[OF assms(1)])
  then have ce: "?ce \<le> end" using assms(2) by auto
  have cb: "begin \<le> ?cb" by simp
  have ok: "cache_ok d R begin end ?cb
              (init_distance_matrix d R begin end ?cb (new_distance_matrix R))"
    by (rule cache_ok_init[OF cb])
  show ?thesis
    unfolding thread_search_def Let_def
    using nearest_neighbor_search_correct[OF ok cb ce, of smax nbs] by simp
qed

lemma team_search_snoc:
  "team_search f (ts @ [t]) nbs =
     (case team_search f ts nbs of Inl e \<Rightarrow> Inl e | Inr nbs' \<Rightarrow> f t nbs')"
  by (induction ts arbitrary: nbs) (auto split: sum.splits)

lemma team_search_prefix:
  assumes "t < T" "begin \<le> end"
  shows "team_search (thread_search d smax R begin end T) [0..<t] nbs =
     search_result (nearest_ordered d smax R begin end) begin
       (begin + t * ((end - begin) div T)) nbs"
  using assms(1)
proof (induction t)
  case 0
  then show ?case by simp
next
  case (Suc t)
  let ?cs = "(end - begin) div T"
  let ?ref = "nearest_ordered d smax R begin end"
  have t: "t < T" "t \<noteq> T - 1" using Suc.prems by auto
  note IH = Suc.IH[OF t(1)]
  have th: "thread_search d smax R begin end T t nbs' =
     search_result ?ref (begin + t * ?cs) (begin + Suc t * ?cs) nbs'" for nbs'
    using thread_search_correct[OF t(1) assms(2), of d smax R nbs'] t(2)
    by (simp add: add.commute add.left_commute)
  have list: "[0..<Suc t] = [0..<t] @ [t]" by simp
  show ?case unfolding list team_search_snoc IH th
    by (rule search_result_append) simp_all
qed

lemma team_search_correct:
  assumes "0 < T" "begin \<le> end"
  shows "team_search (thread_search d smax R begin end T) [0..<T] nbs =
     search_result (nearest_ordered d smax R begin end) begin end nbs"
proof -
  let ?cs = "(end - begin) div T"
  let ?ref = "nearest_ordered d smax R begin end"
  let ?t = "T - 1"
  have t: "?t < T" using assms(1) by simp
  have list: "[0..<T] = [0..<?t] @ [?t]" using assms(1) by (cases T) simp_all
  note pre = team_search_prefix[OF t assms(2), of d smax R nbs]
  have th: "thread_search d smax R begin end T ?t nbs' =
     search_result ?ref (begin + ?t * ?cs) end nbs'" for nbs'
    using thread_search_correct[OF t assms(2), of d smax R nbs'] by simp
  have "Suc ?t * ?cs \<le> end - begin" by (rule chunk_bound[OF t])
  then have mid: "begin + ?t * ?cs \<le> end" using assms(2) by simp
  have "team_search (thread_search d smax R begin end T) ([0..<?t] @ [?t]) nbs =
     search_result ?ref begin end nbs"
    unfolding team_search_snoc pre th
    by (rule search_result_append) (use mid in simp_all)
  then show ?thesis using list by simp
qed

section \<open>What the scan returns\<close>

lemma scan_best_no_improvement:
  "(\<forall>k\<in>set js. b \<le> c k) \<Longrightarrow> scan_best c js (b, n) = (b, n)"
  by (induction js) (auto simp: not_less)

lemma scan_best_stays_above:
  "v < b \<Longrightarrow> (\<forall>k\<in>set xs. v < c k) \<Longrightarrow> v < fst (scan_best c xs (b, n))"
  by (induction xs arbitrary: b n) auto

lemma scan_best_first_min:
  assumes "js = xs @ j # ys" "c j < b0" "\<forall>k\<in>set xs. c j < c k" "\<forall>k\<in>set ys. c j \<le> c k"
  shows "scan_best c js (b0, n0) = (c j, Some j)"
proof -
  obtain bd bn where mid: "scan_best c xs (b0, n0) = (bd, bn)"
    by (cases "scan_best c xs (b0, n0)")
  have "c j < fst (scan_best c xs (b0, n0))"
    by (rule scan_best_stays_above) (use assms in auto)
  then have lt: "c j < bd" using mid by simp
  have "scan_best c js (b0, n0) = scan_best c (j # ys) (bd, bn)"
    unfolding assms(1) scan_best_append mid ..
  also have "\<dots> = scan_best c ys (c j, Some j)" using lt by simp
  also have "\<dots> = (c j, Some j)" by (rule scan_best_no_improvement) (use assms in auto)
  finally show ?thesis .
qed

lemma first_minimum_exists:
  fixes c :: "nat \<Rightarrow> 's::linorder"
  assumes "js \<noteq> []"
  shows "\<exists>xs j ys. js = xs @ j # ys \<and> (\<forall>k\<in>set xs. c j < c k) \<and> (\<forall>k\<in>set ys. c j \<le> c k)
           \<and> find (\<lambda>j. \<forall>k\<in>set js. c j \<le> c k) js = Some j"
proof -
  let ?P = "\<lambda>j. \<forall>k\<in>set js. c j \<le> c k"
  have fin: "finite (c ` set js)" "c ` set js \<noteq> {}" using assms by auto
  then have "Min (c ` set js) \<in> c ` set js" by (rule Min_in)
  then obtain j0 where j0: "j0 \<in> set js" "c j0 = Min (c ` set js)" by auto
  have "?P j0" using j0 fin by (auto intro: Min_le)
  then have "find ?P js \<noteq> None" using j0(1) by (auto simp: find_None_iff)
  then obtain j where f: "find ?P js = Some j" by auto
  then obtain i where i: "i < length js" "?P (js ! i)" "j = js ! i" "\<forall>k<i. \<not> ?P (js ! k)"
    unfolding find_Some_iff by blast
  have split: "js = take i js @ j # drop (Suc i) js"
    using id_take_nth_drop[OF i(1)] i(3) by simp
  have before: "c j < c k" if kin: "k \<in> set (take i js)" for k
  proof -
    from kin obtain q where "q < length (take i js)" "take i js ! q = k"
      unfolding in_set_conv_nth by blast
    then have q: "q < i" "k = js ! q" by simp_all
    then have "\<not> ?P k" using i(4) by simp
    then obtain k' where "k' \<in> set js" "c k' < c k" by (auto simp: not_le)
    moreover have "c j \<le> c k'" using i(2,3) \<open>k' \<in> set js\<close> by simp
    ultimately show ?thesis by simp
  qed
  have after: "c j \<le> c k" if "k \<in> set (drop (Suc i) js)" for k
    using i(2,3) that by (auto dest: in_set_dropD)
  show ?thesis using split before after f by blast
qed

lemma scan_best_eq_find:
  fixes c :: "nat \<Rightarrow> 's::linorder"
  assumes "snd (scan_best c js (b0, None)) = Some j"
  shows "find (\<lambda>j. \<forall>k\<in>set js. c j \<le> c k) js = Some j"
proof -
  have ex: "\<exists>k\<in>set js. c k < b0"
  proof (rule ccontr)
    assume "\<not> (\<exists>k\<in>set js. c k < b0)"
    then have "\<forall>k\<in>set js. b0 \<le> c k" by (auto simp: not_less)
    then have "scan_best c js (b0, None) = (b0, None)" by (rule scan_best_no_improvement)
    then show False using assms by simp
  qed
  then have "js \<noteq> []" by auto
  from first_minimum_exists[OF this, of c]
  obtain xs j' ys where s: "js = xs @ j' # ys" "\<forall>k\<in>set xs. c j' < c k" "\<forall>k\<in>set ys. c j' \<le> c k"
    "find (\<lambda>j. \<forall>k\<in>set js. c j \<le> c k) js = Some j'" by blast
  have "c j' < b0"
  proof -
    obtain k where k: "k \<in> set js" "c k < b0" using ex by blast
    have "c j' \<le> c k" using k(1) s(1,2,3) by (auto simp: less_imp_le)
    then show ?thesis using k(2) by simp
  qed
  then have "scan_best c js (b0, None) = (c j', Some j')"
    using scan_best_first_min[OF s(1) _ s(2,3)] by blast
  then show ?thesis using assms s(4) by simp
qed

section \<open>The candidates of a node\<close>


lemma nearest_ordered_scan:
  "nearest_ordered d smax R begin end i =
     snd (scan_best (ordered_cost d i) (candidates R begin end i) (smax, None))"
proof -
  obtain sb se where sr: "search_range R i begin end = (sb, se)"
    by (cases "search_range R i begin end")
  have 1: "scan_best (\<lambda>j. d j i) [sb..<i] (smax, None)
         = scan_best (ordered_cost d i) [sb..<i] (smax, None)"
    by (rule scan_best_cong) (simp add: ordered_cost_def)
  have 2: "scan_best (d i) [Suc i..<se] b = scan_best (ordered_cost d i) [Suc i..<se] b" for b
    by (rule scan_best_cong) (simp add: ordered_cost_def)
  show ?thesis
    by (simp add: nearest_ordered_def candidates_def sr 1 2 scan_best_append del: upt_Suc)
qed

lemma set_candidates:
  assumes "begin \<le> i" "i < end"
  shows "set (candidates R begin end i) =
           {j. begin \<le> j \<and> j < end \<and> j \<noteq> i \<and> j \<le> i + R \<and> i \<le> j + R}"
  using assms by (auto simp: candidates_def search_range_def)



section \<open>Merge flags and their prefix sum\<close>

lemma fold_set_nth:
  assumes "i < length xs"
  shows "fold (\<lambda>i xs. xs[i := f i]) [a..<b] xs ! i = (if a \<le> i \<and> i < b then f i else xs ! i)"
proof (cases "a \<le> i \<and> i < b")
  case True
  have "fold (\<lambda>i xs. xs[(\<lambda>i. i) i := (\<lambda>i _. f i) i (xs ! (\<lambda>i. i) i)]) [a..<b] xs ! (\<lambda>i. i) i
        = (\<lambda>i _. f i) i (xs ! (\<lambda>i. i) i)"
    by (rule fold_update_at) (use True assms in auto)
  then show ?thesis using True by simp
next
  case False
  then have "i \<notin> (\<lambda>i. i) ` set [a..<b]" by auto
  then have "fold (\<lambda>i xs. xs[(\<lambda>i. i) i := (\<lambda>i xs. f i) i xs]) [a..<b] xs ! i = xs ! i"
    by (rule fold_update_other)
  then have "fold (\<lambda>i xs. xs[i := f i]) [a..<b] xs ! i = xs ! i" by simp
  then show ?thesis using False by presburger
qed

lemma fold_set_length [simp]: "length (fold (\<lambda>i xs. xs[i := f i]) js xs) = length xs"
  by (induction js arbitrary: xs) simp_all

lemma mark_merged_eq:
  "mark_merged nbs begin end mi = fold (\<lambda>i mi. mi[i := merge_flag nbs i]) [begin..<end] mi"
  by (simp add: mark_merged_def merge_flag_def Let_def)

lemma length_mark_merged [simp]: "length (mark_merged nbs begin end mi) = length mi"
  by (simp add: mark_merged_eq)

lemma mark_merged_nth:
  "i < length mi \<Longrightarrow>
     mark_merged nbs begin end mi ! i = (if begin \<le> i \<and> i < end then merge_flag nbs i else mi ! i)"
  unfolding mark_merged_eq by (rule fold_set_nth)

lemma length_sum_in_parallel [simp]: "length (sum_in_parallel xs first count) = length xs"
proof -
  have "length (fold (\<lambda>i xs. if i = first then xs else xs[i := xs ! (i - 1) + xs ! i]) js xs) = length xs"
    for js
    by (induction js arbitrary: xs) simp_all
  then show ?thesis by (simp add: sum_in_parallel_def)
qed

lemma sum_in_parallel_nth:
  assumes "first + count \<le> length xs" "i < length xs"
  shows "sum_in_parallel xs first count ! i =
           (if first \<le> i \<and> i < first + count then (\<Sum>k = first..<Suc i. xs ! k) else xs ! i)"
  using assms
proof (induction count arbitrary: i)
  case 0
  then show ?case by (simp add: sum_in_parallel_def)
next
  case (Suc c)
  let ?step = "\<lambda>i xs. if i = first then xs else xs[i := xs ! (i - 1) + xs ! i]"
  let ?X = "sum_in_parallel xs first c"
  have X: "sum_in_parallel xs first (Suc c) = ?step (first + c) ?X"
    by (simp add: sum_in_parallel_def)
  have IH: "?X ! k = (if first \<le> k \<and> k < first + c then (\<Sum>q = first..<Suc k. xs ! q) else xs ! k)"
    if "k < length xs" for k
    using Suc.IH[of k] Suc.prems that by simp
  show ?case
  proof (cases "i = first + c")
    case False
    then have "sum_in_parallel xs first (Suc c) ! i = ?X ! i" unfolding X by simp
    then show ?thesis using IH[OF Suc.prems(2)] False by auto
  next
    case True
    show ?thesis
    proof (cases c)
      case 0
      then show ?thesis unfolding X using True IH[OF Suc.prems(2)] by simp
    next
      case (Suc c')
      have prev: "?X ! (i - 1) = (\<Sum>q = first..<i. xs ! q)"
        using IH[of "i - 1"] True Suc Suc.prems by simp
      have cur: "?X ! i = xs ! i" using IH[OF Suc.prems(2)] True by simp
      have "sum_in_parallel xs first (Suc c) ! i = ?X ! (i - 1) + ?X ! i"
        unfolding X using True Suc Suc.prems by simp
      then show ?thesis using prev cur True by simp
    qed
  qed
qed

lemma merged_index_nth:
  assumes "end \<le> length mi" "begin \<le> i" "i < end"
  shows "sum_in_parallel (mark_merged nbs begin end mi) begin (end - begin) ! i
           = pair_rank nbs begin (Suc i)"
proof -
  have "sum_in_parallel (mark_merged nbs begin end mi) begin (end - begin) ! i
          = (\<Sum>k = begin..<Suc i. mark_merged nbs begin end mi ! k)"
    using sum_in_parallel_nth[of "begin" "end - begin" "mark_merged nbs begin end mi" i] assms
    by simp
  also have "\<dots> = (\<Sum>k = begin..<Suc i. merge_flag nbs k)"
    by (rule sum.cong) (use assms in \<open>auto simp: mark_merged_nth\<close>)
  finally show ?thesis by (simp add: pair_rank_def)
qed

section \<open>Ranks\<close>

lemma merge_flag_le: "merge_flag nbs i \<le> 1"
  by (simp add: merge_flag_def)

lemma pair_rank_begin [simp]: "pair_rank nbs begin begin = 0"
  by (simp add: pair_rank_def)

lemma pair_rank_Suc:
  "begin \<le> i \<Longrightarrow> pair_rank nbs begin (Suc i) = pair_rank nbs begin i + merge_flag nbs i"
  by (simp add: pair_rank_def)

lemma pair_rank_mono: "a \<le> b \<Longrightarrow> pair_rank nbs begin a \<le> pair_rank nbs begin b"
  unfolding pair_rank_def by (rule sum_mono2) auto

lemma pair_rank_diff: "begin \<le> a \<Longrightarrow> a \<le> b \<Longrightarrow> pair_rank nbs begin b \<le> pair_rank nbs begin a + (b - a)"
proof (induction b)
  case 0
  then show ?case by simp
next
  case (Suc b)
  show ?case
  proof (cases "a = Suc b")
    case True
    then show ?thesis by simp
  next
    case False
    then have le: "a \<le> b" using Suc.prems by simp
    then have "begin \<le> b" using Suc.prems by simp
    then show ?thesis
      using Suc.IH[OF Suc.prems(1) le] merge_flag_le[of nbs b] le
      by (simp add: pair_rank_Suc)
  qed
qed

lemma pair_rank_le: "begin \<le> i \<Longrightarrow> pair_rank nbs begin i \<le> i - begin"
  using pair_rank_diff[of "begin" "begin" i nbs] by simp

lemma pair_rank_card:
  "pair_rank nbs begin i = card {k \<in> {begin..<i}. merge_flag nbs k = 1}"
proof -
  have "card {k \<in> {begin..<i}. merge_flag nbs k = 1} = (\<Sum>k\<in>{k \<in> {begin..<i}. merge_flag nbs k = 1}. 1)"
    by simp
  also have "\<dots> = (\<Sum>k = begin..<i. if merge_flag nbs k = 1 then 1 else 0)"
    by (rule sum.inter_filter) simp
  also have "\<dots> = (\<Sum>k = begin..<i. merge_flag nbs k)"
    by (rule sum.cong) (auto simp: merge_flag_def)
  finally show ?thesis by (simp add: pair_rank_def)
qed

lemma pairs_at_most_half:
  assumes "valid_neighbors nbs begin end"
  shows "2 * pair_rank nbs begin end \<le> end - begin"
proof -
  let ?W = "{begin..<end}"
  let ?L = "{k \<in> ?W. merge_flag nbs k = 1}"
  let ?f = "\<lambda>i. nbs ! i"
  have involutive: "nbs ! (nbs ! k) = k" if "k \<in> ?L" for k
    using that by (simp add: merge_flag_def split: if_splits)
  have inj: "inj_on ?f ?L"
  proof (rule inj_onI)
    fix x y assume "x \<in> ?L" "y \<in> ?L" "nbs ! x = nbs ! y"
    then show "x = y" using involutive[of x] involutive[of y] by metis
  qed
  have sub: "?f ` ?L \<subseteq> ?W - ?L"
  proof
    fix j assume "j \<in> ?f ` ?L"
    then obtain k where k: "k \<in> ?L" "j = nbs ! k" by blast
    have kW: "begin \<le> k" "k < end" and lt: "k < nbs ! k" and inv: "nbs ! (nbs ! k) = k"
      using k(1) by (simp_all add: merge_flag_def split: if_splits)
    have jW: "begin \<le> j" "j < end"
      using assms kW k(2) unfolding valid_neighbors_def by blast+
    have "\<not> j < nbs ! j" using lt inv k(2) by simp
    then have "merge_flag nbs j \<noteq> 1" by (simp add: merge_flag_def)
    then show "j \<in> ?W - ?L" using jW by simp
  qed
  have "card ?L = card (?f ` ?L)" using inj by (simp add: card_image)
  also have "\<dots> \<le> card (?W - ?L)" by (rule card_mono) (use sub in auto)
  also have "\<dots> = card ?W - card ?L" by (rule card_Diff_subset) auto
  finally have "2 * card ?L \<le> card ?W" by simp
  then show ?thesis by (simp add: pair_rank_card)
qed

section \<open>Loops whose steps write disjoint slots\<close>

lemma fold_targets_length:
  assumes "\<And>i out. length (step i out) = length out"
  shows "length (fold step js out) = length out"
  by (induction js arbitrary: out) (simp_all add: assms)

lemma fold_targets_frame:
  assumes "\<And>i out. i \<in> set js \<Longrightarrow> s \<notin> T i \<Longrightarrow> step i out ! s = out ! s"
    and "\<forall>i\<in>set js. s \<notin> T i"
  shows "fold step js out ! s = out ! s"
  using assms by (induction js arbitrary: out) simp_all

lemma fold_targets_at:
  assumes len: "\<And>i out. length (step i out) = length out"
    and frame: "\<And>i out s. i \<in> set js \<Longrightarrow> s \<notin> T i \<Longrightarrow> step i out ! s = out ! s"
    and dep: "\<And>i out out' s. i \<in> set js \<Longrightarrow> length out = length out' \<Longrightarrow>
               (\<forall>s\<in>T i. out ! s = out' ! s) \<Longrightarrow> s \<in> T i \<Longrightarrow> step i out ! s = step i out' ! s"
    and disj: "\<And>i i'. i \<in> set js \<Longrightarrow> i' \<in> set js \<Longrightarrow> i \<noteq> i' \<Longrightarrow> T i \<inter> T i' = {}"
    and dist: "distinct js" and i: "i \<in> set js" and s: "s \<in> T i"
  shows "fold step js out ! s = step i out ! s"
proof -
  obtain xs ys where split: "js = xs @ i # ys" using i by (meson split_list)
  have nxs: "i \<notin> set xs" and nys: "i \<notin> set ys" using dist split by auto
  have other: "s \<notin> T k" if "k \<in> set xs \<union> set ys" for k
  proof -
    have "k \<in> set js" "i \<noteq> k" using that split nxs nys by auto
    then have "T i \<inter> T k = {}" using disj[OF i] by blast
    then show ?thesis using s by blast
  qed
  let ?mid = "fold step xs out"
  have lenmid: "length ?mid = length out" by (rule fold_targets_length[OF len])
  have agree: "\<forall>s'\<in>T i. ?mid ! s' = out ! s'"
  proof
    fix s' assume s': "s' \<in> T i"
    show "?mid ! s' = out ! s'"
    proof (rule fold_targets_frame[where T = T])
      show "\<And>k out. k \<in> set xs \<Longrightarrow> s' \<notin> T k \<Longrightarrow> step k out ! s' = out ! s'"
        using frame split by simp
      show "\<forall>k\<in>set xs. s' \<notin> T k"
      proof
        fix k assume k: "k \<in> set xs"
        then have "k \<in> set js" "i \<noteq> k" using split nxs by auto
        then have "T i \<inter> T k = {}" using disj[OF i] by blast
        then show "s' \<notin> T k" using s' by blast
      qed
    qed
  qed
  have "fold step js out = fold step ys (step i ?mid)" unfolding split by simp
  moreover have "fold step ys (step i ?mid) ! s = step i ?mid ! s"
  proof (rule fold_targets_frame[where T = T])
    show "\<And>k out. k \<in> set ys \<Longrightarrow> s \<notin> T k \<Longrightarrow> step k out ! s = out ! s"
      using frame split by simp
    show "\<forall>k\<in>set ys. s \<notin> T k" using other by blast
  qed
  moreover have "step i ?mid ! s = step i out ! s"
    by (rule dep[OF i lenmid agree s])
  ultimately show ?thesis by simp
qed

section \<open>Where a round writes\<close>

lemma merge_flag_cases: "merge_flag nbs i = 0 \<or> merge_flag nbs i = 1"
  by (simp add: merge_flag_def)

lemma new_index_kept:
  assumes "begin \<le> i" "merge_flag nbs i = 0"
  shows "new_index nbs begin ub i = ub + ((i - begin) - pair_rank nbs begin i)"
  using assms pair_rank_le[OF assms(1), of nbs] by (simp add: new_index_def pair_rank_Suc)

lemma new_index_strict_mono:
  assumes "begin \<le> i" "i < i'" "merge_flag nbs i = 0" "merge_flag nbs i' = 0"
  shows "new_index nbs begin ub i < new_index nbs begin ub i'"
proof -
  have b': "begin \<le> i'" using assms by simp
  have 1: "pair_rank nbs begin i \<le> i - begin" by (rule pair_rank_le[OF assms(1)])
  have "pair_rank nbs begin i' \<le> pair_rank nbs begin (Suc i) + (i' - Suc i)"
    by (rule pair_rank_diff) (use assms in auto)
  then have 2: "pair_rank nbs begin i' \<le> pair_rank nbs begin i + (i' - Suc i)"
    using assms by (simp add: pair_rank_Suc)
  show ?thesis
    unfolding new_index_kept[OF assms(1,3)] new_index_kept[OF b' assms(4)]
    using 1 2 assms(1,2) by simp
qed

lemma new_index_bounds:
  assumes "begin \<le> i" "i < end" "merge_flag nbs i = 0"
    "ub + pair_rank nbs begin end = begin" "cb + 2 * pair_rank nbs begin end = end"
  shows "ub \<le> new_index nbs begin ub i" "new_index nbs begin ub i < cb"
proof -
  show "ub \<le> new_index nbs begin ub i" unfolding new_index_kept[OF assms(1,3)] by simp
  have 1: "pair_rank nbs begin i \<le> i - begin" by (rule pair_rank_le[OF assms(1)])
  have "pair_rank nbs begin end \<le> pair_rank nbs begin (Suc i) + (end - Suc i)"
    by (rule pair_rank_diff) (use assms in auto)
  then have 2: "pair_rank nbs begin end \<le> pair_rank nbs begin i + (end - Suc i)"
    using assms by (simp add: pair_rank_Suc)
  show "new_index nbs begin ub i < cb"
    unfolding new_index_kept[OF assms(1,3)] using 1 2 assms by simp
qed

lemma child_index_lower:
  assumes "begin \<le> i" "merge_flag nbs i = 1"
  shows "child_index nbs begin cb i = cb + 2 * pair_rank nbs begin i"
  using assms by (simp add: child_index_def pair_rank_Suc)

lemma child_index_apart:
  assumes "begin \<le> i" "i < i'" "merge_flag nbs i = 1" "merge_flag nbs i' = 1"
  shows "child_index nbs begin cb i + 1 < child_index nbs begin cb i'"
proof -
  have b': "begin \<le> i'" using assms by simp
  have "pair_rank nbs begin (Suc i) \<le> pair_rank nbs begin i'"
    by (rule pair_rank_mono) (use assms in simp)
  then have "pair_rank nbs begin i + 1 \<le> pair_rank nbs begin i'"
    using assms by (simp add: pair_rank_Suc)
  then show ?thesis
    unfolding child_index_lower[OF assms(1,3)] child_index_lower[OF b' assms(4)] by simp
qed

lemma child_index_bounds:
  assumes "begin \<le> i" "i < end" "merge_flag nbs i = 1" "cb + 2 * pair_rank nbs begin end = end"
  shows "cb \<le> child_index nbs begin cb i" "child_index nbs begin cb i + 1 < end"
proof -
  show "cb \<le> child_index nbs begin cb i" unfolding child_index_lower[OF assms(1,3)] by simp
  have "pair_rank nbs begin (Suc i) \<le> pair_rank nbs begin end"
    by (rule pair_rank_mono) (use assms in simp)
  then have "pair_rank nbs begin i + 1 \<le> pair_rank nbs begin end"
    using assms by (simp add: pair_rank_Suc)
  then show "child_index nbs begin cb i + 1 < end"
    unfolding child_index_lower[OF assms(1,3)] using assms(4) by simp
qed

lemma merge_nodes_eq:
  "merge_nodes ext input nbs mi begin end ub cb output =
     fold (merge_step ext input nbs mi begin ub cb) [begin..<end] output"
  unfolding merge_nodes_def merge_step_def ..

lemma length_merge_step [simp]:
  "length (merge_step ext input nbs mi begin ub cb i output) = length output"
  by (simp add: merge_step_def Let_def)

lemma length_merge_nodes [simp]:
  "length (merge_nodes ext input nbs mi begin end ub cb output) = length output"
  unfolding merge_nodes_eq by (rule fold_targets_length) simp

lemma merge_step_frame:
  "s \<notin> merge_targets nbs mi begin ub cb i \<Longrightarrow>
     merge_step ext input nbs mi begin ub cb i output ! s = output ! s"
  by (simp add: merge_step_def merge_targets_def Let_def split: if_splits)

lemma nth_update_any:
  "xs[i := x] ! j = (if i = j \<and> i < length xs then x else xs ! j)"
  by (cases "i < length xs") (auto simp: nth_list_update list_update_beyond)

lemma merge_step_dep:
  assumes "length out = length out'"
    "\<forall>s\<in>merge_targets nbs mi begin ub cb i. out ! s = out' ! s"
    "s \<in> merge_targets nbs mi begin ub cb i"
  shows "merge_step ext input nbs mi begin ub cb i out ! s
       = merge_step ext input nbs mi begin ub cb i out' ! s"
  using assms
  by (auto simp: merge_step_def merge_targets_def Let_def nth_update_any split: if_splits)

text \<open>The kinds of a node in a round.\<close>

lemma round_ok_valid:
  assumes "round_ok nbs mi begin end ub cb" "begin \<le> i" "i < end"
  shows "begin \<le> nbs ! i" "nbs ! i < end" "nbs ! i \<noteq> i"
  using assms unfolding round_ok_def valid_neighbors_def by blast+

lemma round_ok_mi:
  assumes "round_ok nbs mi begin end ub cb" "begin \<le> i" "i < end"
  shows "mi ! i = pair_rank nbs begin (Suc i)"
  using assms unfolding round_ok_def by blast

lemma round_ok_ub:
  assumes "round_ok nbs mi begin end ub cb"
  shows "ub + pair_rank nbs begin end = begin" "cb + 2 * pair_rank nbs begin end = end"
  using assms unfolding round_ok_def by blast+

lemma merge_targets_eq:
  assumes ok: "round_ok nbs mi begin end ub cb" and i: "begin \<le> i" "i < end"
  shows "merge_targets nbs mi begin ub cb i =
     (if nbs ! (nbs ! i) = i then
        (if i < nbs ! i then {new_index nbs begin ub (nbs ! i), child_index nbs begin cb i,
                              child_index nbs begin cb i + 1}
         else {})
      else {new_index nbs begin ub i})"
proof -
  have j: "begin \<le> nbs ! i" "nbs ! i < end" using round_ok_valid[OF ok i] by auto
  show ?thesis
    unfolding merge_targets_def Let_def new_index_def child_index_def
      round_ok_mi[OF ok i] round_ok_mi[OF ok j] ..
qed

lemma upper_flag:
  assumes "i < nbs ! i" "nbs ! (nbs ! i) = i"
  shows "merge_flag nbs (nbs ! i) = 0"
  using assms by (simp add: merge_flag_def)

lemma lower_flag: "i < nbs ! i \<Longrightarrow> nbs ! (nbs ! i) = i \<Longrightarrow> merge_flag nbs i = 1"
  by (simp add: merge_flag_def)

lemma survivor_flag: "nbs ! (nbs ! i) \<noteq> i \<Longrightarrow> merge_flag nbs i = 0"
  by (simp add: merge_flag_def)

lemma new_index_inj:
  assumes "begin \<le> i" "begin \<le> i'" "i \<noteq> i'" "merge_flag nbs i = 0" "merge_flag nbs i' = 0"
  shows "new_index nbs begin ub i \<noteq> new_index nbs begin ub i'"
proof (cases "i < i'")
  case True
  then show ?thesis using new_index_strict_mono[of "begin" i i' nbs ub] assms by simp
next
  case False
  then have "i' < i" using assms(3) by simp
  then show ?thesis using new_index_strict_mono[of "begin" i' i nbs ub] assms by simp
qed

lemma child_index_sep:
  assumes "begin \<le> i" "begin \<le> i'" "i \<noteq> i'" "merge_flag nbs i = 1" "merge_flag nbs i' = 1"
  shows "child_index nbs begin cb i + 1 < child_index nbs begin cb i'
       \<or> child_index nbs begin cb i' + 1 < child_index nbs begin cb i"
proof (cases "i < i'")
  case True
  then show ?thesis using child_index_apart[of "begin" i i' nbs cb] assms by simp
next
  case False
  then have "i' < i" using assms(3) by simp
  then show ?thesis using child_index_apart[of "begin" i' i nbs cb] assms by simp
qed

text \<open>
  Each node of the window writes the slot of one kept node (its own, or its partner's when
  it is the lower member of a pair); a lower member also writes its two child slots.
\<close>

lemma merge_targets_disjoint:
  assumes ok: "round_ok nbs mi begin end ub cb"
    and i: "begin \<le> i" "i < end" and i': "begin \<le> i'" "i' < end" and ne: "i \<noteq> i'"
  shows "merge_targets nbs mi begin ub cb i \<inter> merge_targets nbs mi begin ub cb i' = {}"
proof -
  note ub = round_ok_ub[OF ok]
  note vi = round_ok_valid[OF ok i] and vi' = round_ok_valid[OF ok i']
  have kept_lt: "new_index nbs begin ub k < cb" if "begin \<le> k" "k < end" "merge_flag nbs k = 0" for k
    by (rule new_index_bounds(2)[OF that ub])
  have child_ge: "cb \<le> child_index nbs begin cb k" if "begin \<le> k" "k < end" "merge_flag nbs k = 1" for k
    by (rule child_index_bounds(1)[OF that ub(2)])
  consider (LL) "nbs ! (nbs ! i) = i" "i < nbs ! i" "nbs ! (nbs ! i') = i'" "i' < nbs ! i'"
    | (LS) "nbs ! (nbs ! i) = i" "i < nbs ! i" "nbs ! (nbs ! i') \<noteq> i'"
    | (SL) "nbs ! (nbs ! i) \<noteq> i" "nbs ! (nbs ! i') = i'" "i' < nbs ! i'"
    | (SS) "nbs ! (nbs ! i) \<noteq> i" "nbs ! (nbs ! i') \<noteq> i'"
    | (U) "nbs ! (nbs ! i) = i" "\<not> i < nbs ! i"
    | (U') "nbs ! (nbs ! i') = i'" "\<not> i' < nbs ! i'"
    by blast
  then show ?thesis
  proof cases
    case LL
    have f: "merge_flag nbs i = 1" "merge_flag nbs i' = 1"
      "merge_flag nbs (nbs ! i) = 0" "merge_flag nbs (nbs ! i') = 0"
      using LL by (simp_all add: lower_flag upper_flag)
    have "nbs ! i \<noteq> nbs ! i'" using LL ne by metis
    then have 1: "new_index nbs begin ub (nbs ! i) \<noteq> new_index nbs begin ub (nbs ! i')"
      using new_index_inj[OF vi(1) vi'(1) _ f(3,4)] by simp
    have 2: "new_index nbs begin ub (nbs ! i) < cb" "new_index nbs begin ub (nbs ! i') < cb"
      using kept_lt[OF vi(1,2) f(3)] kept_lt[OF vi'(1,2) f(4)] by simp_all
    have 3: "cb \<le> child_index nbs begin cb i" "cb \<le> child_index nbs begin cb i'"
      using child_ge[OF i f(1)] child_ge[OF i' f(2)] by simp_all
    have 4: "child_index nbs begin cb i + 1 < child_index nbs begin cb i'
       \<or> child_index nbs begin cb i' + 1 < child_index nbs begin cb i"
      by (rule child_index_sep[OF i(1) i'(1) ne f(1,2)])
    show ?thesis
      unfolding merge_targets_eq[OF ok i] merge_targets_eq[OF ok i']
      using LL 1 2 3 4 by auto
  next
    case LS
    have f: "merge_flag nbs i = 1" "merge_flag nbs (nbs ! i) = 0" "merge_flag nbs i' = 0"
      using LS by (simp_all add: lower_flag upper_flag survivor_flag)
    have "nbs ! i \<noteq> i'" using LS by metis
    then have 1: "new_index nbs begin ub (nbs ! i) \<noteq> new_index nbs begin ub i'"
      using new_index_inj[OF vi(1) i'(1) _ f(2,3)] by simp
    have 2: "new_index nbs begin ub i' < cb" using kept_lt[OF i' f(3)] by simp
    have 3: "cb \<le> child_index nbs begin cb i" using child_ge[OF i f(1)] by simp
    show ?thesis
      unfolding merge_targets_eq[OF ok i] merge_targets_eq[OF ok i']
      using LS 1 2 3 by auto
  next
    case SL
    have f: "merge_flag nbs i' = 1" "merge_flag nbs (nbs ! i') = 0" "merge_flag nbs i = 0"
      using SL by (simp_all add: lower_flag upper_flag survivor_flag)
    have "nbs ! i' \<noteq> i" using SL by metis
    then have 1: "new_index nbs begin ub (nbs ! i') \<noteq> new_index nbs begin ub i"
      using new_index_inj[OF vi'(1) i(1) _ f(2,3)] by simp
    have 2: "new_index nbs begin ub i < cb" using kept_lt[OF i f(3)] by simp
    have 3: "cb \<le> child_index nbs begin cb i'" using child_ge[OF i' f(1)] by simp
    show ?thesis
      unfolding merge_targets_eq[OF ok i] merge_targets_eq[OF ok i']
      using SL 1 2 3 by auto
  next
    case SS
    have f: "merge_flag nbs i = 0" "merge_flag nbs i' = 0"
      using SS by (simp_all add: survivor_flag)
    have 1: "new_index nbs begin ub i \<noteq> new_index nbs begin ub i'"
      by (rule new_index_inj[OF i(1) i'(1) ne f])
    show ?thesis
      unfolding merge_targets_eq[OF ok i] merge_targets_eq[OF ok i']
      using SS 1 by auto
  next
    case U
    then show ?thesis unfolding merge_targets_eq[OF ok i] by simp
  next
    case U'
    then show ?thesis unfolding merge_targets_eq[OF ok i'] by simp
  qed
qed

lemma merge_nodes_at:
  assumes ok: "round_ok nbs mi begin end ub cb" and i: "begin \<le> i" "i < end"
    and s: "s \<in> merge_targets nbs mi begin ub cb i"
  shows "merge_nodes ext input nbs mi begin end ub cb output ! s
       = merge_step ext input nbs mi begin ub cb i output ! s"
  unfolding merge_nodes_eq
proof (rule fold_targets_at[where T = "merge_targets nbs mi begin ub cb"])
  show "\<And>i out. length (merge_step ext input nbs mi begin ub cb i out) = length out" by simp
  show "\<And>i out s. i \<in> set [begin..<end] \<Longrightarrow> s \<notin> merge_targets nbs mi begin ub cb i \<Longrightarrow>
          merge_step ext input nbs mi begin ub cb i out ! s = out ! s"
    by (rule merge_step_frame)
  show "\<And>i out out' s. i \<in> set [begin..<end] \<Longrightarrow> length out = length out' \<Longrightarrow>
          (\<forall>s\<in>merge_targets nbs mi begin ub cb i. out ! s = out' ! s) \<Longrightarrow>
          s \<in> merge_targets nbs mi begin ub cb i \<Longrightarrow>
          merge_step ext input nbs mi begin ub cb i out ! s
          = merge_step ext input nbs mi begin ub cb i out' ! s"
    by (rule merge_step_dep)
  show "\<And>i i'. i \<in> set [begin..<end] \<Longrightarrow> i' \<in> set [begin..<end] \<Longrightarrow> i \<noteq> i' \<Longrightarrow>
          merge_targets nbs mi begin ub cb i \<inter> merge_targets nbs mi begin ub cb i' = {}"
    using merge_targets_disjoint[OF ok] by simp
  show "distinct [begin..<end]" by simp
  show "i \<in> set [begin..<end]" using i by simp
  show "s \<in> merge_targets nbs mi begin ub cb i" by (rule s)
qed


section \<open>What a round leaves in the output array\<close>

lemma merge_survivor:
  assumes ok: "round_ok nbs mi begin end ub cb" and i: "begin \<le> i" "i < end"
    and surv: "nbs ! (nbs ! i) \<noteq> i" and len: "end \<le> length output"
  shows "merge_nodes ext input nbs mi begin end ub cb output ! new_index nbs begin ub i = input ! i"
proof -
  let ?s = "new_index nbs begin ub i"
  have f: "merge_flag nbs i = 0" using surv by (rule survivor_flag)
  have "?s < cb" by (rule new_index_bounds(2)[OF i f round_ok_ub[OF ok]])
  then have lt: "?s < length output" using round_ok_ub(2)[OF ok] len by simp
  have s: "?s \<in> merge_targets nbs mi begin ub cb i"
    unfolding merge_targets_eq[OF ok i] using surv by simp
  have eq: "ub + i - begin - mi ! i = ?s"
    unfolding new_index_def round_ok_mi[OF ok i] ..
  have "merge_step ext input nbs mi begin ub cb i output = output[?s := input ! i]"
    using surv unfolding merge_step_def Let_def eq by simp
  then have "merge_step ext input nbs mi begin ub cb i output ! ?s = input ! i"
    using lt by simp
  then show ?thesis
    unfolding merge_nodes_at[OF ok i s] .
qed

lemma merge_pair:
  assumes ok: "round_ok nbs mi begin end ub cb" and i: "begin \<le> i" "i < end"
    and mutual: "nbs ! (nbs ! i) = i" and lower: "i < nbs ! i" and len: "end \<le> length output"
  shows "merge_nodes ext input nbs mi begin end ub cb output ! new_index nbs begin ub (nbs ! i)
           = (output ! new_index nbs begin ub (nbs ! i))
               \<lparr>bounds := ext (bounds (input ! (nbs ! i))) (bounds (input ! i)),
                is_leaf := False,
                first_child_or_primitive := child_index nbs begin cb i\<rparr>"
    and "merge_nodes ext input nbs mi begin end ub cb output ! child_index nbs begin cb i = input ! i"
    and "merge_nodes ext input nbs mi begin end ub cb output ! (child_index nbs begin cb i + 1)
           = input ! (nbs ! i)"
proof -
  let ?j = "nbs ! i"
  let ?s = "new_index nbs begin ub ?j"
  let ?fc = "child_index nbs begin cb i"
  note v = round_ok_valid[OF ok i]
  have f: "merge_flag nbs i = 1" "merge_flag nbs ?j = 0"
    using mutual lower by (simp_all add: lower_flag upper_flag)
  have s_lt: "?s < cb" by (rule new_index_bounds(2)[OF v(1,2) f(2) round_ok_ub[OF ok]])
  have fc: "cb \<le> ?fc" "?fc + 1 < end"
    using child_index_bounds[OF i f(1) round_ok_ub(2)[OF ok]] by simp_all
  have lens: "?s < length output" "?fc < length output" "?fc + 1 < length output"
    using s_lt fc len by simp_all
  have eqs: "ub + ?j - begin - mi ! ?j = ?s" "cb + (mi ! i - 1) * 2 = ?fc"
    unfolding new_index_def child_index_def round_ok_mi[OF ok i] round_ok_mi[OF ok v(1,2)]
    by simp_all
  have T: "merge_targets nbs mi begin ub cb i = {?s, ?fc, ?fc + 1}"
    unfolding merge_targets_eq[OF ok i] using mutual lower by simp
  have step: "merge_step ext input nbs mi begin ub cb i output =
      (output[?s := (output ! ?s)\<lparr>bounds := ext (bounds (input ! ?j)) (bounds (input ! i)),
                is_leaf := False, first_child_or_primitive := ?fc\<rparr>])
        [?fc := input ! i, ?fc + 1 := input ! ?j]"
    using mutual lower unfolding merge_step_def Let_def eqs by simp
  have at: "merge_nodes ext input nbs mi begin end ub cb output ! s
       = merge_step ext input nbs mi begin ub cb i output ! s" if "s \<in> {?s, ?fc, ?fc + 1}" for s
    by (rule merge_nodes_at[OF ok i]) (use that T in simp)
  show "merge_nodes ext input nbs mi begin end ub cb output ! ?s
           = (output ! ?s)\<lparr>bounds := ext (bounds (input ! ?j)) (bounds (input ! i)),
                is_leaf := False, first_child_or_primitive := ?fc\<rparr>"
    using at[of ?s] step s_lt fc lens by simp
  show "merge_nodes ext input nbs mi begin end ub cb output ! ?fc = input ! i"
    using at[of ?fc] step lens by simp
  show "merge_nodes ext input nbs mi begin end ub cb output ! (?fc + 1) = input ! ?j"
    using at[of "?fc + 1"] step lens by simp
qed



lemma copy_previous_level_nth:
  "s < length output \<Longrightarrow>
     copy_previous_level input end pe output ! s
       = (if end \<le> s \<and> s < pe then input ! s else output ! s)"
  unfolding copy_previous_level_def by (rule fold_set_nth)

lemma length_copy_previous_level [simp]:
  "length (copy_previous_level input end pe output) = length output"
  unfolding copy_previous_level_def by simp

section \<open>The round as a whole\<close>

lemma scan_best_Some_mem:
  fixes c :: "nat \<Rightarrow> 's::linorder"
  assumes "snd (scan_best c js (b0, None)) = Some j"
  shows "j \<in> set js"
proof -
  have "find (\<lambda>j. \<forall>k\<in>set js. c j \<le> c k) js = Some j" by (rule scan_best_eq_find[OF assms])
  then show ?thesis unfolding find_Some_iff by auto
qed

lemma nearest_ordered_candidate:
  assumes "nearest_ordered d smax R begin end i = Some j" "begin \<le> i" "i < end"
  shows "begin \<le> j" "j < end" "j \<noteq> i" "j \<le> i + R" "i \<le> j + R"
proof -
  have "j \<in> set (candidates R begin end i)"
    using assms(1) unfolding nearest_ordered_scan by (rule scan_best_Some_mem)
  then show "begin \<le> j" "j < end" "j \<noteq> i" "j \<le> i + R" "i \<le> j + R"
    unfolding set_candidates[OF assms(2,3)] by simp_all
qed

lemma search_result_Inr:
  assumes "search_result ref a b nbs = Inr nbs'"
  shows "\<not> search_fails ref a b" "nbs' = neighbor_table ref a b nbs"
  using assms unfolding search_result_def by (simp_all split: if_splits)

lemma search_result_neighbor:
  assumes "search_result ref a b nbs = Inr nbs'" "a \<le> i" "i < b" "b \<le> length nbs"
  shows "ref i = Some (nbs' ! i)"
proof -
  note r = search_result_Inr[OF assms(1)]
  have "ref i \<noteq> None"
  proof
    assume "ref i = None"
    then have "search_fails ref a b" unfolding search_fails_def using assms(2,3) by blast
    then show False using r(1) by simp
  qed
  moreover have "nbs' ! i = the (ref i)"
    unfolding r(2) using neighbor_table_nth[of i nbs ref a b] assms by simp
  ultimately show ?thesis by auto
qed

lemma cluster_cases:
  assumes T: "0 < T" and be: "begin \<le> end"
  shows "cluster ext ha smax R T input output neighbors merged_index begin end pe =
     (case search_result (nearest_ordered (distance ext ha input) smax R begin end) begin end neighbors of
        Inl e \<Rightarrow> Inl e
      | Inr nbs \<Rightarrow>
          let mi = sum_in_parallel (mark_merged nbs begin end merged_index) begin (end - begin);
              m = mi ! (end - 1);
              cb = end - m * 2;
              ub = end - (m * 2 + (end - begin - m))
          in Inr (copy_previous_level input end pe (merge_nodes ext input nbs mi begin end ub cb output),
                  nbs, mi, ub, cb))"
  unfolding cluster_def team_search_correct[OF T be] window_ranges_def Let_def prod.case ..

lemma cluster_Inr:
  assumes c: "cluster ext ha smax R T input output neighbors merged_index begin end pe
               = Inr (out, nbs, mi, nb, ne)"
    and T: "0 < T" and room: "window_room begin end"
    and len: "end \<le> length neighbors" "end \<le> length merged_index"
  shows "search_result (nearest_ordered (distance ext ha input) smax R begin end) begin end neighbors
           = Inr nbs"
    and "mi = sum_in_parallel (mark_merged nbs begin end merged_index) begin (end - begin)"
    and "round_ok nbs mi begin end nb ne"
    and "out = copy_previous_level input end pe (merge_nodes ext input nbs mi begin end nb ne output)"
    and "mi ! (end - 1) = pair_rank nbs begin end"
proof -
  let ?ref = "nearest_ordered (distance ext ha input) smax R begin end"
  have be: "begin < end" and rm: "end - begin \<le> 2 * begin + 1"
    using room unfolding window_room_def by simp_all
  have be': "begin \<le> end" using be by simp
  note cc = c[unfolded cluster_cases[OF T be']]
  obtain nbs0 where sr0: "search_result ?ref begin end neighbors = Inr nbs0"
    using cc by (cases "search_result ?ref begin end neighbors") simp_all
  note cc' = cc[unfolded sr0 sum.case Let_def]
  have nbs: "nbs = nbs0" using cc' by simp
  show sr: "search_result ?ref begin end neighbors = Inr nbs" using sr0 nbs by simp
  show mi: "mi = sum_in_parallel (mark_merged nbs begin end merged_index) begin (end - begin)"
    using cc' nbs by simp
  have valid: "valid_neighbors nbs begin end"
    unfolding valid_neighbors_def
  proof (intro allI impI)
    fix i assume "begin \<le> i \<and> i < end"
    then have i: "begin \<le> i" "i < end" by simp_all
    have "?ref i = Some (nbs ! i)" by (rule search_result_neighbor[OF sr i len(1)])
    from nearest_ordered_candidate[OF this i]
    show "begin \<le> nbs ! i \<and> nbs ! i < end \<and> nbs ! i \<noteq> i" by simp
  qed
  have mi_nth: "mi ! i = pair_rank nbs begin (Suc i)" if "begin \<le> i" "i < end" for i
    unfolding mi by (rule merged_index_nth[OF len(2) that])
  have "mi ! (end - 1) = pair_rank nbs begin (Suc (end - 1))"
    by (rule mi_nth) (use be in auto)
  then show m: "mi ! (end - 1) = pair_rank nbs begin end" using be by simp
  let ?m = "pair_rank nbs begin end"
  have half: "2 * ?m \<le> end - begin" by (rule pairs_at_most_half[OF valid])
  have nb: "nb = end - (?m * 2 + (end - begin - ?m))" and ne: "ne = end - ?m * 2"
    using cc' nbs mi m by simp_all
  have ub: "nb + ?m = begin" using nb half rm be by simp
  have cb: "ne + 2 * ?m = end" using ne half be by simp
  show "round_ok nbs mi begin end nb ne"
    unfolding round_ok_def using valid mi_nth ub cb by blast
  show "out = copy_previous_level input end pe (merge_nodes ext input nbs mi begin end nb ne output)"
    using cc' nbs mi m nb ne by simp
qed



lemma cluster_thread_count:
  assumes "0 < T" "0 < T'" "begin \<le> end"
  shows "cluster ext ha smax R T input output neighbors merged_index begin end pe
       = cluster ext ha smax R T' input output neighbors merged_index begin end pe"
proof -
  have a: "team_search (thread_search (distance ext ha input) smax R begin end T) [0..<T] neighbors
    = team_search (thread_search (distance ext ha input) smax R begin end T') [0..<T'] neighbors"
    unfolding team_search_correct[OF assms(1,3)] team_search_correct[OF assms(2,3)] by (rule refl)
  show ?thesis unfolding cluster_def a by (rule refl)
qed

lemma cluster_loop_threads_imp:
  assumes "cluster_loop ext ha smax R th nodes' nodes_copy neighbors merged_index begin end pe = Some r"
    and "\<forall>n. 0 < th n" "\<forall>n. 0 < th' n"
  shows "cluster_loop ext ha smax R th' nodes' nodes_copy neighbors merged_index begin end pe = Some r"
proof -
  let ?P = "\<lambda>ext ha smax R th ns nc nbs mi b e pe r.
       \<forall>th'. (\<forall>n. 0 < th n) \<longrightarrow> (\<forall>n. 0 < th' n) \<longrightarrow>
          cluster_loop ext ha smax R th' ns nc nbs mi b e pe = Some r"
  have "?P ext ha smax R th nodes' nodes_copy neighbors merged_index begin end pe r"
  proof (rule cluster_loop.raw_induct[where P = ?P, OF _ assms(1)])
    fix f ext ha smax R th ns nc nbs mi b e pe r
    assume IH: "\<And>ext ha smax R th ns nc nbs mi b e pe r.
        f ext ha smax R th ns nc nbs mi b e pe = Some r \<Longrightarrow>
        ?P ext ha smax R th ns nc nbs mi b e pe r"
      and body: "(if 1 < e - b
        then case cluster ext ha smax R (th (e - b)) ns nc nbs mi b e pe of
             Inl err \<Rightarrow> Some (Inl err)
           | Inr (out, nbs', mi', nb, ne) \<Rightarrow> f ext ha smax R th out ns nbs' mi' nb ne e
        else Some (Inr (ns, b, e))) = Some r"
    show "?P ext ha smax R th ns nc nbs mi b e pe r"
    proof (intro allI impI)
      fix th' :: "nat \<Rightarrow> nat"
      assume th: "\<forall>n. 0 < th n" and th': "\<forall>n. 0 < th' n"
      show "cluster_loop ext ha smax R th' ns nc nbs mi b e pe = Some r"
      proof (cases "e - b > 1")
        case False
        then show ?thesis using body by (subst cluster_loop.simps) simp
      next
        case True
        then have be: "b \<le> e" by simp
        have eq: "cluster ext ha smax R (th' (e - b)) ns nc nbs mi b e pe
            = cluster ext ha smax R (th (e - b)) ns nc nbs mi b e pe"
          by (rule cluster_thread_count) (use th th' be in auto)
        show ?thesis
        proof (cases "cluster ext ha smax R (th (e - b)) ns nc nbs mi b e pe")
          case (Inl err)
          then show ?thesis using body True eq by (subst cluster_loop.simps) simp
        next
          case (Inr x)
          obtain out nbs' mi' nb ne where x: "x = (out, nbs', mi', nb, ne)" by (cases x) auto
          have "f ext ha smax R th out ns nbs' mi' nb ne e = Some r"
            using body True Inr x by simp
          then have "cluster_loop ext ha smax R th' out ns nbs' mi' nb ne e = Some r"
            using IH th th' by blast
          then show ?thesis using True eq Inr x by (subst cluster_loop.simps) simp
        qed
      qed
    qed
  qed
  then show ?thesis using assms(2,3) by blast
qed

lemma cluster_loop_threads:
  assumes "\<forall>n. 0 < th n" "\<forall>n. 0 < th' n"
  shows "cluster_loop ext ha smax R th nodes' nodes_copy neighbors merged_index begin end pe
       = cluster_loop ext ha smax R th' nodes' nodes_copy neighbors merged_index begin end pe"
proof (cases "cluster_loop ext ha smax R th nodes' nodes_copy neighbors merged_index begin end pe")
  case (Some r)
  then show ?thesis using cluster_loop_threads_imp[OF Some assms] by simp
next
  case None
  show ?thesis
  proof (cases "cluster_loop ext ha smax R th' nodes' nodes_copy neighbors merged_index begin end pe")
    case None': None
    then show ?thesis using None by simp
  next
    case (Some r)
    then show ?thesis using cluster_loop_threads_imp[OF Some assms(2,1)] None by simp
  qed
qed

lemma cylinder_loop_threads_imp:
  assumes "cylinder_loop ext ha smax R th iteration k nodes' nodes_copy neighbors merged_index begin end pe = Some r"
    and "\<forall>n. 0 < th n" "\<forall>n. 0 < th' n"
  shows "cylinder_loop ext ha smax R th' iteration k nodes' nodes_copy neighbors merged_index begin end pe = Some r"
proof -
  let ?P = "\<lambda>ext ha smax R th it k ns nc nbs mi b e pe r.
       \<forall>th'. (\<forall>n. 0 < th n) \<longrightarrow> (\<forall>n. 0 < th' n) \<longrightarrow>
          cylinder_loop ext ha smax R th' it k ns nc nbs mi b e pe = Some r"
  have "?P ext ha smax R th iteration k nodes' nodes_copy neighbors merged_index begin end pe r"
  proof (rule cylinder_loop.raw_induct[where P = ?P, OF _ assms(1)])
    fix f ext ha smax R th it k ns nc nbs mi b e pe r
    assume IH: "\<And>ext ha smax R th it k ns nc nbs mi b e pe r.
        f ext ha smax R th it k ns nc nbs mi b e pe = Some r \<Longrightarrow>
        ?P ext ha smax R th it k ns nc nbs mi b e pe r"
      and body: "(if 1 < e - b
        then case cluster ext ha smax R (th (e - b)) ns nc nbs mi b e pe of
             Inl err \<Rightarrow> Some (Inl err)
           | Inr (out, nbs', mi', nb, ne) \<Rightarrow>
               if k + 1 = it
               then Some (Inr (out, nbs', mi', nb, ne, e, k + 1))
               else f ext ha smax R th it (k + 1) out ns nbs' mi' nb ne e
        else Some (Inr (ns, nbs, mi, b, e, pe, k))) = Some r"
    show "?P ext ha smax R th it k ns nc nbs mi b e pe r"
    proof (intro allI impI)
      fix th' :: "nat \<Rightarrow> nat"
      assume th: "\<forall>n. 0 < th n" and th': "\<forall>n. 0 < th' n"
      show "cylinder_loop ext ha smax R th' it k ns nc nbs mi b e pe = Some r"
      proof (cases "e - b > 1")
        case False
        then show ?thesis using body by (subst cylinder_loop.simps) simp
      next
        case True
        then have be: "b \<le> e" by simp
        have eq: "cluster ext ha smax R (th' (e - b)) ns nc nbs mi b e pe
            = cluster ext ha smax R (th (e - b)) ns nc nbs mi b e pe"
          by (rule cluster_thread_count) (use th th' be in auto)
        show ?thesis
        proof (cases "cluster ext ha smax R (th (e - b)) ns nc nbs mi b e pe")
          case (Inl err)
          then show ?thesis using body True eq by (subst cylinder_loop.simps) simp
        next
          case (Inr x)
          obtain out nbs' mi' nb ne where x: "x = (out, nbs', mi', nb, ne)" by (cases x) auto
          show ?thesis
          proof (cases "k + 1 = it")
            case stop: True
            then show ?thesis using body True eq Inr x by (subst cylinder_loop.simps) simp
          next
            case False
            have "f ext ha smax R th it (k + 1) out ns nbs' mi' nb ne e = Some r"
              using body True Inr x False by simp
            then have "cylinder_loop ext ha smax R th' it (k + 1) out ns nbs' mi' nb ne e = Some r"
              using IH th th' by blast
            then show ?thesis using True eq Inr x False by (subst cylinder_loop.simps) simp
          qed
        qed
      qed
    qed
  qed
  then show ?thesis using assms(2,3) by blast
qed

lemma cylinder_loop_threads:
  assumes "\<forall>n. 0 < th n" "\<forall>n. 0 < th' n"
  shows "cylinder_loop ext ha smax R th iteration k nodes' nodes_copy neighbors merged_index begin end pe
       = cylinder_loop ext ha smax R th' iteration k nodes' nodes_copy neighbors merged_index begin end pe"
proof (cases "cylinder_loop ext ha smax R th iteration k nodes' nodes_copy neighbors merged_index begin end pe")
  case (Some r)
  then show ?thesis using cylinder_loop_threads_imp[OF Some assms] by simp
next
  case None
  show ?thesis
  proof (cases "cylinder_loop ext ha smax R th' iteration k nodes' nodes_copy neighbors merged_index begin end pe")
    case None': None
    then show ?thesis using None by simp
  next
    case (Some r)
    then show ?thesis using cylinder_loop_threads_imp[OF Some assms(2,1)] None by simp
  qed
qed

lemma merge_flag_iff: "merge_flag nbs k = 1 \<longleftrightarrow> k < nbs ! k \<and> nbs ! (nbs ! k) = k"
  by (simp add: merge_flag_def)

lemma pair_rank_card_lower:
  "pair_rank nbs begin i = card {k \<in> {begin..<i}. k < nbs ! k \<and> nbs ! (nbs ! k) = k}"
  unfolding pair_rank_card merge_flag_iff ..

lemma kept_count:
  assumes "begin \<le> i"
  shows "(i - begin) - pair_rank nbs begin i
           = card {k \<in> {begin..<i}. \<not> (k < nbs ! k \<and> nbs ! (nbs ! k) = k)}"
proof -
  let ?A = "{begin..<i}"
  let ?L = "{k \<in> ?A. k < nbs ! k \<and> nbs ! (nbs ! k) = k}"
  let ?K = "{k \<in> ?A. \<not> (k < nbs ! k \<and> nbs ! (nbs ! k) = k)}"
  have "?A = ?L \<union> ?K" "?L \<inter> ?K = {}" by auto
  then have "card ?A = card ?L + card ?K"
    by (metis (no_types, lifting) card_Un_disjoint finite_Un finite_atLeastLessThan)
  then show ?thesis unfolding pair_rank_card_lower by simp
qed

lemma cluster_out_nth:
  assumes "out = copy_previous_level input end pe (merge_nodes ext input nbs mi begin end nb ne output)"
    "s < end" "end \<le> length output"
  shows "out ! s = merge_nodes ext input nbs mi begin end nb ne output ! s"
  unfolding assms(1) using assms(2,3) by (simp add: copy_previous_level_nth)

lemma round_survivor:
  assumes ok: "round_ok nbs mi begin end nb ne"
    and out: "out = copy_previous_level input end pe (merge_nodes ext input nbs mi begin end nb ne output)"
    and len: "end \<le> length output" and i: "begin \<le> i" "i < end"
    and surv: "nbs ! (nbs ! i) \<noteq> i"
  shows "nb \<le> nb + i - begin - mi ! i" "nb + i - begin - mi ! i < ne"
    "out ! (nb + i - begin - mi ! i) = input ! i"
    "nb + i - begin - mi ! i
       = nb + card {k \<in> {begin..<i}. \<not> (k < nbs ! k \<and> nbs ! (nbs ! k) = k)}"
proof -
  have f: "merge_flag nbs i = 0" using surv by (rule survivor_flag)
  have eq: "nb + i - begin - mi ! i = new_index nbs begin nb i"
    unfolding new_index_def round_ok_mi[OF ok i] ..
  note b = new_index_bounds[OF i f round_ok_ub[OF ok]]
  show "nb \<le> nb + i - begin - mi ! i" "nb + i - begin - mi ! i < ne"
    unfolding eq using b by simp_all
  have "ne \<le> end" using round_ok_ub(2)[OF ok] by simp
  then have lt: "new_index nbs begin nb i < end" using b(2) by simp
  show "out ! (nb + i - begin - mi ! i) = input ! i"
    unfolding eq cluster_out_nth[OF out lt len] by (rule merge_survivor[OF ok i surv len])
  show "nb + i - begin - mi ! i
       = nb + card {k \<in> {begin..<i}. \<not> (k < nbs ! k \<and> nbs ! (nbs ! k) = k)}"
    unfolding eq new_index_kept[OF i(1) f] kept_count[OF i(1)] ..
qed

lemma round_pair:
  assumes ok: "round_ok nbs mi begin end nb ne"
    and out: "out = copy_previous_level input end pe (merge_nodes ext input nbs mi begin end nb ne output)"
    and len: "end \<le> length output" and i: "begin \<le> i" "i < end"
    and mutual: "nbs ! (nbs ! i) = i" and lower: "i < nbs ! i"
  shows "nb \<le> nb + nbs ! i - begin - mi ! (nbs ! i)" "nb + nbs ! i - begin - mi ! (nbs ! i) < ne"
    "out ! (nb + nbs ! i - begin - mi ! (nbs ! i))
       = (output ! (nb + nbs ! i - begin - mi ! (nbs ! i)))
           \<lparr>bounds := ext (bounds (input ! (nbs ! i))) (bounds (input ! i)),
            is_leaf := False,
            first_child_or_primitive := ne + (mi ! i - 1) * 2\<rparr>"
    "ne \<le> ne + (mi ! i - 1) * 2" "ne + (mi ! i - 1) * 2 + 1 < end"
    "out ! (ne + (mi ! i - 1) * 2) = input ! i"
    "out ! (ne + (mi ! i - 1) * 2 + 1) = input ! (nbs ! i)"
    "mi ! i - 1 = card {k \<in> {begin..<i}. k < nbs ! k \<and> nbs ! (nbs ! k) = k}"
    "nb + nbs ! i - begin - mi ! (nbs ! i)
       = nb + card {k \<in> {begin..<nbs ! i}. \<not> (k < nbs ! k \<and> nbs ! (nbs ! k) = k)}"
proof -
  let ?j = "nbs ! i"
  note v = round_ok_valid[OF ok i]
  have f: "merge_flag nbs i = 1" "merge_flag nbs ?j = 0"
    using mutual lower by (simp_all add: lower_flag upper_flag)
  have eq: "nb + ?j - begin - mi ! ?j = new_index nbs begin nb ?j"
    unfolding new_index_def round_ok_mi[OF ok v(1,2)] ..
  have eqc: "ne + (mi ! i - 1) * 2 = child_index nbs begin ne i"
    unfolding child_index_def round_ok_mi[OF ok i] ..
  note b = new_index_bounds[OF v(1,2) f(2) round_ok_ub[OF ok]]
  note c = child_index_bounds[OF i f(1) round_ok_ub(2)[OF ok]]
  show "nb \<le> nb + ?j - begin - mi ! ?j" "nb + ?j - begin - mi ! ?j < ne"
    unfolding eq using b by simp_all
  show "ne \<le> ne + (mi ! i - 1) * 2" "ne + (mi ! i - 1) * 2 + 1 < end"
    unfolding eqc using c by simp_all
  have "ne \<le> end" using round_ok_ub(2)[OF ok] by simp
  then have lt: "new_index nbs begin nb ?j < end" using b(2) by simp
  have ltc: "child_index nbs begin ne i < end" "child_index nbs begin ne i + 1 < end"
    using c by simp_all
  note mp = merge_pair[OF ok i mutual lower len, of ext input]
  show "out ! (nb + ?j - begin - mi ! ?j)
       = (output ! (nb + ?j - begin - mi ! ?j))
           \<lparr>bounds := ext (bounds (input ! ?j)) (bounds (input ! i)),
            is_leaf := False,
            first_child_or_primitive := ne + (mi ! i - 1) * 2\<rparr>"
    unfolding eq eqc cluster_out_nth[OF out lt len] by (rule mp(1))
  show "out ! (ne + (mi ! i - 1) * 2) = input ! i"
    unfolding eqc cluster_out_nth[OF out ltc(1) len] by (rule mp(2))
  show "out ! (ne + (mi ! i - 1) * 2 + 1) = input ! ?j"
    unfolding eqc cluster_out_nth[OF out ltc(2) len] by (rule mp(3))
  have "mi ! i - 1 = pair_rank nbs begin i"
    unfolding round_ok_mi[OF ok i] pair_rank_Suc[OF i(1)] f(1) by simp
  then show "mi ! i - 1 = card {k \<in> {begin..<i}. k < nbs ! k \<and> nbs ! (nbs ! k) = k}"
    unfolding pair_rank_card_lower .
  show "nb + ?j - begin - mi ! ?j
       = nb + card {k \<in> {begin..<?j}. \<not> (k < nbs ! k \<and> nbs ! (nbs ! k) = k)}"
    unfolding eq new_index_kept[OF v(1) f(2)] kept_count[OF v(1)] ..
qed

lemma two_leaves_round:
  "cluster interval_extend interval_half_area 1000 10 1 two_leaves
     (replicate 3 (default_node (0, 0))) [0, 0, 0] [0, 0, 0] 1 3 3
   = Inr (two_leaves_merged, [0, 2, 1], [0, 1, 1], 0, 1)"
  by code_simp

lemma cluster_next_window:
  assumes "cluster ext ha smax R T input output neighbors merged_index begin end pe
               = Inr (out, nbs, mi, nb, ne)" "0 < T" "begin \<le> end"
  shows "window_ranges mi begin end
           = (mi ! (end - 1), end - begin - mi ! (end - 1), mi ! (end - 1) * 2, ne, nb)"
proof -
  let ?ref = "nearest_ordered (distance ext ha input) smax R begin end"
  note cc = assms(1)[unfolded cluster_cases[OF assms(2,3)]]
  obtain nbs0 where sr0: "search_result ?ref begin end neighbors = Inr nbs0"
    using cc by (cases "search_result ?ref begin end neighbors") simp_all
  note cc' = cc[unfolded sr0 sum.case Let_def]
  have "nb = end - (mi ! (end - 1) * 2 + (end - begin - mi ! (end - 1)))"
    "ne = end - mi ! (end - 1) * 2"
    using cc' by auto
  then show ?thesis unfolding window_ranges_def Let_def by simp
qed

text \<open>
  C3. In a round over the window \<open>[begin, end)\<close>, for a node \<open>i\<close> of the window with neighbor
  \<open>j = neighbors[i]\<close>: \<open>j\<close> is another node of the window; the merge flag of \<open>i\<close> is 1 exactly
  when \<open>i < j\<close> and \<open>neighbors[j] = i\<close>, so the merged count is the number of mutual pairs;
  when \<open>neighbors[j] = i\<close> the output holds a parent (not a leaf) in the next window whose two
  children are the unchanged copies of the lower and the higher member of the pair; otherwise
  \<open>i\<close> is copied unchanged into the next window. The window leaves room below \<open>begin\<close> for the
  new parents, as it does in every round of a build.
\<close>

theorem C3_mutual_merge_rule:
  assumes "cluster ext half_area smax R T input output neighbors merged_index begin end pe
             = Inr (out, nbs, mi, nb, ne)"
    and "0 < T" and "window_room begin end"
    and "end \<le> length neighbors" and "end \<le> length merged_index" and "end \<le> length output"
    and "begin \<le> i" and "i < end"
  shows "(begin \<le> nbs ! i \<and> nbs ! i < end \<and> nbs ! i \<noteq> i) \<and>
     mark_merged nbs begin end merged_index ! i
       = (if i < nbs ! i \<and> nbs ! (nbs ! i) = i then 1 else 0) \<and>
     mi ! (end - 1) = card {k \<in> {begin..<end}. k < nbs ! k \<and> nbs ! (nbs ! k) = k} \<and>
     (nbs ! (nbs ! i) = i \<longrightarrow>
        (let lo = min i (nbs ! i); hi = max i (nbs ! i);
             parent = out ! (nb + hi - begin - mi ! hi)
         in nb \<le> nb + hi - begin - mi ! hi \<and> nb + hi - begin - mi ! hi < ne \<and>
            \<not> is_leaf parent \<and>
            out ! first_child_or_primitive parent = input ! lo \<and>
            out ! (first_child_or_primitive parent + 1) = input ! hi)) \<and>
     (nbs ! (nbs ! i) \<noteq> i \<longrightarrow>
        nb \<le> nb + i - begin - mi ! i \<and> nb + i - begin - mi ! i < ne \<and>
        out ! (nb + i - begin - mi ! i) = input ! i)"
proof -
  note r = cluster_Inr[OF assms(1,2,3,4,5)]
  note ok = r(3) and out = r(4)
  note i = assms(7,8)
  note v = round_ok_valid[OF ok i]
  have 1: "begin \<le> nbs ! i \<and> nbs ! i < end \<and> nbs ! i \<noteq> i" using v by simp
  have 2: "mark_merged nbs begin end merged_index ! i
       = (if i < nbs ! i \<and> nbs ! (nbs ! i) = i then 1 else 0)"
    using mark_merged_nth[of i merged_index nbs "begin" "end"] i assms(5)
    by (simp add: merge_flag_def)
  have 3: "mi ! (end - 1) = card {k \<in> {begin..<end}. k < nbs ! k \<and> nbs ! (nbs ! k) = k}"
    unfolding r(5) by (rule pair_rank_card_lower)
  have 4: "let lo = min i (nbs ! i); hi = max i (nbs ! i);
             parent = out ! (nb + hi - begin - mi ! hi)
         in nb \<le> nb + hi - begin - mi ! hi \<and> nb + hi - begin - mi ! hi < ne \<and>
            \<not> is_leaf parent \<and>
            out ! first_child_or_primitive parent = input ! lo \<and>
            out ! (first_child_or_primitive parent + 1) = input ! hi"
    if mutual: "nbs ! (nbs ! i) = i"
  proof (cases "i < nbs ! i")
    case True
    note p = round_pair[OF ok out assms(6) i mutual True]
    have mm: "min i (nbs ! i) = i" "max i (nbs ! i) = nbs ! i" using True by simp_all
    have a: "\<not> is_leaf (out ! (nb + nbs ! i - begin - mi ! (nbs ! i)))"
      unfolding p(3) by simp
    have b: "first_child_or_primitive (out ! (nb + nbs ! i - begin - mi ! (nbs ! i)))
               = ne + (mi ! i - 1) * 2"
      unfolding p(3) by simp
    show ?thesis unfolding Let_def mm b using p(1) p(2) a p(6) p(7) by blast
  next
    case False
    then have lt: "nbs ! i < nbs ! (nbs ! i)" using mutual v(3) by simp
    have mutual': "nbs ! (nbs ! (nbs ! i)) = nbs ! i" using mutual by simp
    note p = round_pair[OF ok out assms(6) v(1,2) mutual' lt, unfolded mutual]
    have mm: "min i (nbs ! i) = nbs ! i" "max i (nbs ! i) = i" using False by simp_all
    have a: "\<not> is_leaf (out ! (nb + i - begin - mi ! i))"
      unfolding p(3) by simp
    have b: "first_child_or_primitive (out ! (nb + i - begin - mi ! i))
               = ne + (mi ! (nbs ! i) - 1) * 2"
      unfolding p(3) by simp
    show ?thesis unfolding Let_def mm b using p(1) p(2) a p(6) p(7) by blast
  qed
  have 5: "nb \<le> nb + i - begin - mi ! i \<and> nb + i - begin - mi ! i < ne \<and>
        out ! (nb + i - begin - mi ! i) = input ! i"
    if surv: "nbs ! (nbs ! i) \<noteq> i"
    using round_survivor[OF ok out assms(6) i surv] by simp
  show ?thesis using 1 2 3 4 5 by blast
qed

theorem C3_mutual_merge_rule_witness:
  "cluster interval_extend interval_half_area 1000 10 1 two_leaves
     (replicate 3 (default_node (0, 0))) [0, 0, 0] [0, 0, 0] 1 3 3
     = Inr (two_leaves_merged, [0, 2, 1], [0, 1, 1], 0, 1) \<and>
   mark_merged [0, 2, 1] 1 3 [0, 0, 0] ! 1 = 1 \<and>
   \<not> is_leaf (two_leaves_merged ! 0) \<and>
   two_leaves_merged ! 1 = leaf_box (0, 1) 0 \<and> two_leaves_merged ! 2 = leaf_box (10, 11) 1"
proof -
  have room: "window_room 1 3" by (simp add: window_room_def)
  show ?thesis
    using two_leaves_round
      C3_mutual_merge_rule[OF two_leaves_round _ room, of 1]
    by (simp add: Let_def two_leaves_merged_def two_leaves_def)
qed

text \<open>
  C4, as stated, fails: in the round over two leaves at \<open>[1, 3)\<close> one pair is merged, the
  code's \<open>unmerged_count\<close> is \<open>(end - begin) - merged_count = 1\<close>, not
  \<open>(end - begin) - 2 * merged_count = 0\<close>; the parent is written at \<open>unmerged_begin = 0\<close>, and
  the slot \<open>children_begin + pair_rank = 1\<close> holds the unchanged first child, a leaf.
\<close>

theorem C4_counterexample:
  "cluster interval_extend interval_half_area 1000 10 1 two_leaves
     (replicate 3 (default_node (0, 0))) [0, 0, 0] [0, 0, 0] 1 3 3
     = Inr (two_leaves_merged, [0, 2, 1], [0, 1, 1], 0, 1) \<and>
   window_ranges [0, 1, 1] 1 3 = (1, 1, 2, 1, 0) \<and>
   fst (snd (window_ranges [0, 1, 1] 1 3)) \<noteq> (3 - 1) - 2 * fst (window_ranges [0, 1, 1] 1 3) \<and>
   is_leaf (two_leaves_merged ! (1 + 0)) \<and>
   \<not> is_leaf (two_leaves_merged ! 0)"
  using two_leaves_round
  by (simp add: window_ranges_def Let_def two_leaves_merged_def leaf_box_def)

text \<open>
  C4, amended. For a round over \<open>[begin, end)\<close> that merges \<open>merged_count\<close> pairs:
  \<open>unmerged_count = (end - begin) - merged_count\<close> (the survivors and the new parents, which
  are the next window), \<open>children_count = 2 * merged_count\<close>,
  \<open>children_begin = end - children_count\<close>,
  \<open>unmerged_begin = end - children_count - unmerged_count\<close>, and the next window is
  \<open>[unmerged_begin, children_begin)\<close>. A survivor \<open>i\<close> is written to
  \<open>unmerged_begin + (i - begin) - merged_index[i]\<close>, that is \<open>unmerged_begin\<close> plus the number
  of nodes before it that are not the lower member of a pair. The parent of a pair \<open>i < j\<close>
  is written to the slot of its higher member, \<open>unmerged_begin + (j - begin) - merged_index[j]\<close>;
  only its bounding volume, leaf flag and child index are assigned. The two children are
  copied unchanged to \<open>first_child = children_begin + 2 * pair_rank\<close> and \<open>first_child + 1\<close>,
  where \<open>pair_rank = merged_index[i] - 1\<close> counts the pairs with a smaller lower member; the
  parent's \<open>first_child_or_primitive\<close> is \<open>first_child\<close> and its \<open>is_leaf\<close> is false.
\<close>

theorem C4_output_ranges_and_placement:
  assumes "cluster ext half_area smax R T input output neighbors merged_index begin end pe
             = Inr (out, nbs, mi, nb, ne)"
    and "0 < T" and "window_room begin end"
    and "end \<le> length neighbors" and "end \<le> length merged_index" and "end \<le> length output"
    and "begin \<le> i" and "i < end"
  shows "window_ranges mi begin end
       = (mi ! (end - 1), end - begin - mi ! (end - 1), 2 * mi ! (end - 1),
          end - 2 * mi ! (end - 1), end - (2 * mi ! (end - 1) + (end - begin - mi ! (end - 1)))) \<and>
     ne = end - 2 * mi ! (end - 1) \<and>
     nb = end - (2 * mi ! (end - 1) + (end - begin - mi ! (end - 1))) \<and>
     2 * mi ! (end - 1) \<le> end - begin \<and> nb + mi ! (end - 1) = begin \<and>
     ne - nb = end - begin - mi ! (end - 1) \<and>
     (nbs ! (nbs ! i) \<noteq> i \<longrightarrow>
        out ! (nb + i - begin - mi ! i) = input ! i \<and>
        nb + i - begin - mi ! i
          = nb + card {k \<in> {begin..<i}. \<not> (k < nbs ! k \<and> nbs ! (nbs ! k) = k)}) \<and>
     (nbs ! (nbs ! i) = i \<and> i < nbs ! i \<longrightarrow>
        out ! (nb + nbs ! i - begin - mi ! (nbs ! i))
          = (output ! (nb + nbs ! i - begin - mi ! (nbs ! i)))
              \<lparr>bounds := ext (bounds (input ! (nbs ! i))) (bounds (input ! i)),
               is_leaf := False,
               first_child_or_primitive := ne + (mi ! i - 1) * 2\<rparr> \<and>
        nb + nbs ! i - begin - mi ! (nbs ! i)
          = nb + card {k \<in> {begin..<nbs ! i}. \<not> (k < nbs ! k \<and> nbs ! (nbs ! k) = k)} \<and>
        out ! (ne + (mi ! i - 1) * 2) = input ! i \<and>
        out ! (ne + (mi ! i - 1) * 2 + 1) = input ! (nbs ! i) \<and>
        mi ! i - 1 = card {k \<in> {begin..<i}. k < nbs ! k \<and> nbs ! (nbs ! k) = k})"
proof -
  note r = cluster_Inr[OF assms(1,2,3,4,5)]
  note ok = r(3) and out = r(4)
  note i = assms(7,8)
  have be: "begin \<le> end" using i by simp
  note u = round_ok_ub[OF ok, unfolded r(5)[symmetric]]
  have w: "window_ranges mi begin end
       = (mi ! (end - 1), end - begin - mi ! (end - 1), mi ! (end - 1) * 2, ne, nb)"
    by (rule cluster_next_window[OF assms(1,2) be])
  have half: "2 * mi ! (end - 1) \<le> end - begin"
    using pairs_at_most_half[of nbs "begin" "end"] ok unfolding round_ok_def r(5) by simp
  have ne: "ne = end - 2 * mi ! (end - 1)" using u(2) by simp
  have nb: "nb = end - (2 * mi ! (end - 1) + (end - begin - mi ! (end - 1)))"
    using u(1) half be by simp
  have 1: "window_ranges mi begin end
       = (mi ! (end - 1), end - begin - mi ! (end - 1), 2 * mi ! (end - 1),
          end - 2 * mi ! (end - 1), end - (2 * mi ! (end - 1) + (end - begin - mi ! (end - 1))))"
    unfolding w using ne nb by simp
  have 2: "ne - nb = end - begin - mi ! (end - 1)" using u half be by simp
  have 3: "out ! (nb + i - begin - mi ! i) = input ! i \<and>
        nb + i - begin - mi ! i
          = nb + card {k \<in> {begin..<i}. \<not> (k < nbs ! k \<and> nbs ! (nbs ! k) = k)}"
    if surv: "nbs ! (nbs ! i) \<noteq> i"
    using round_survivor(3,4)[OF ok out assms(6) i surv] by blast
  have 4: "out ! (nb + nbs ! i - begin - mi ! (nbs ! i))
          = (output ! (nb + nbs ! i - begin - mi ! (nbs ! i)))
              \<lparr>bounds := ext (bounds (input ! (nbs ! i))) (bounds (input ! i)),
               is_leaf := False,
               first_child_or_primitive := ne + (mi ! i - 1) * 2\<rparr> \<and>
        nb + nbs ! i - begin - mi ! (nbs ! i)
          = nb + card {k \<in> {begin..<nbs ! i}. \<not> (k < nbs ! k \<and> nbs ! (nbs ! k) = k)} \<and>
        out ! (ne + (mi ! i - 1) * 2) = input ! i \<and>
        out ! (ne + (mi ! i - 1) * 2 + 1) = input ! (nbs ! i) \<and>
        mi ! i - 1 = card {k \<in> {begin..<i}. k < nbs ! k \<and> nbs ! (nbs ! k) = k}"
    if "nbs ! (nbs ! i) = i \<and> i < nbs ! i"
  proof -
    have m: "nbs ! (nbs ! i) = i" "i < nbs ! i" using that by simp_all
    note p = round_pair[OF ok out assms(6) i m]
    show ?thesis using p(3) p(9) p(6) p(7) p(8) by blast
  qed
  show ?thesis using 1 ne nb half u(1) 2 3 4 by blast
qed

theorem C4_output_ranges_and_placement_witness:
  "cluster interval_extend interval_half_area 1000 10 1 two_leaves
     (replicate 3 (default_node (0, 0))) [0, 0, 0] [0, 0, 0] 1 3 3
     = Inr (two_leaves_merged, [0, 2, 1], [0, 1, 1], 0, 1) \<and>
   window_ranges [0, 1, 1] 1 3 = (1, 1, 2, 1, 0) \<and>
   two_leaves_merged ! 0
     = (default_node (0, 0))\<lparr>bounds := interval_extend (10, 11) (0, 1), is_leaf := False,
                             first_child_or_primitive := 1\<rparr> \<and>
   two_leaves_merged ! 1 = leaf_box (0, 1) 0 \<and> two_leaves_merged ! 2 = leaf_box (10, 11) 1"
proof -
  have room: "window_room 1 3" by (simp add: window_room_def)
  show ?thesis
    using two_leaves_round
      C4_output_ranges_and_placement[OF two_leaves_round _ room, of 1]
    by (simp add: Let_def two_leaves_def two_leaves_merged_def leaf_box_def)
qed

text \<open>
  C8. The result of a round, and of each build overload, does not depend on the number of
  threads of the team (at least one): the chunks of the threads partition the window, and
  each thread's cache returns the distances a single thread would compute.
\<close>

theorem C8_thread_count_independence:
  assumes "\<forall>n. 0 < threads n" and "\<forall>n. 0 < threads' n"
    and "0 < T" and "0 < T'" and "begin \<le> end"
  shows "cluster ext half_area smax R T input output neighbors merged_index begin end pe
       = cluster ext half_area smax R T' input output neighbors merged_index begin end pe \<and>
     build_box ext_box half_area_box smax R threads zero_box tree boxes indices count
       = build_box ext_box half_area_box smax R threads' zero_box tree boxes indices count \<and>
     build_cyl ext_cyl half_area_cyl smax R threads zero_cyl tree cyls indices count
       = build_cyl ext_cyl half_area_cyl smax R threads' zero_cyl tree cyls indices count \<and>
     build_hybrid ext_cyl half_area_cyl ext_box half_area_box AABB smax R threads zero_cyl zero_box
         tree cyls indices count iteration
       = build_hybrid ext_cyl half_area_cyl ext_box half_area_box AABB smax R threads' zero_cyl
           zero_box tree cyls indices count iteration"
proof -
  note cl = cluster_loop_threads[OF assms(1,2)]
  note cy = cylinder_loop_threads[OF assms(1,2)]
  have 1: "cluster ext half_area smax R T input output neighbors merged_index begin end pe
       = cluster ext half_area smax R T' input output neighbors merged_index begin end pe"
    by (rule cluster_thread_count[OF assms(3,4,5)])
  have 2: "build_box ext_box half_area_box smax R threads zero_box tree boxes indices count
       = build_box ext_box half_area_box smax R threads' zero_box tree boxes indices count"
    unfolding build_box_def build_nodes_def Let_def cl ..
  have 3: "build_cyl ext_cyl half_area_cyl smax R threads zero_cyl tree cyls indices count
       = build_cyl ext_cyl half_area_cyl smax R threads' zero_cyl tree cyls indices count"
    unfolding build_cyl_def build_nodes_def Let_def cl ..
  have 4: "build_hybrid ext_cyl half_area_cyl ext_box half_area_box AABB smax R threads zero_cyl zero_box
         tree cyls indices count iteration
       = build_hybrid ext_cyl half_area_cyl ext_box half_area_box AABB smax R threads' zero_cyl
           zero_box tree cyls indices count iteration"
    unfolding build_hybrid_def Let_def cl cy ..
  show ?thesis using 1 2 3 4 by blast
qed

theorem C8_thread_count_independence_witness:
  "cluster interval_extend interval_half_area 1000 10 1 two_leaves
     (replicate 3 (default_node (0, 0))) [0, 0, 0] [0, 0, 0] 1 3 3
   = cluster interval_extend interval_half_area 1000 10 4 two_leaves
       (replicate 3 (default_node (0, 0))) [0, 0, 0] [0, 0, 0] 1 3 3 \<and>
   build_box interval_extend interval_half_area 1000 10 (\<lambda>n. 1) (0, 0) empty_tree
       [(0, 1), (10, 11)] [0, 1] 2
   = build_box interval_extend interval_half_area 1000 10 (\<lambda>n. 4) (0, 0) empty_tree
       [(0, 1), (10, 11)] [0, 1] 2"
proof (rule conjI)
  have t: "\<forall>n. 0 < (\<lambda>n. 1::nat) n" "\<forall>n. 0 < (\<lambda>n. 4::nat) n" "0 < (1::nat)" "0 < (4::nat)"
    "(1::nat) \<le> 3"
    by simp_all
  show "cluster interval_extend interval_half_area 1000 10 1 two_leaves
     (replicate 3 (default_node (0, 0))) [0, 0, 0] [0, 0, 0] 1 3 3
   = cluster interval_extend interval_half_area 1000 10 4 two_leaves
       (replicate 3 (default_node (0, 0))) [0, 0, 0] [0, 0, 0] 1 3 3"
    by (rule C8_thread_count_independence[OF t, THEN conjunct1])
  show "build_box interval_extend interval_half_area 1000 10 (\<lambda>n. 1) (0, 0) empty_tree
       [(0, 1), (10, 11)] [0, 1] 2
   = build_box interval_extend interval_half_area 1000 10 (\<lambda>n. 4) (0, 0) empty_tree
       [(0, 1), (10, 11)] [0, 1] 2"
    by (rule C8_thread_count_independence[OF t, THEN conjunct2, THEN conjunct1])
qed

text \<open>
  C6: the conversion loop of the hybrid build runs over \<open>i < primitive_count\<close>, not over the
  \<open>2P - 1\<close> slots. With four cylinders and \<open>iteration = 1\<close> the hand-off window is
  \<open>[2, 5)\<close>: the cylinder node at index 4 (a leaf with bounds \<open>(30, 31)\<close>) is in the window but
  its box node is left value-initialised: no bounds, no origin, not marked as a leaf.
\<close>

theorem C6_handoff_conversion_stops_at_primitive_count:
  "cylinder_loop interval_extend interval_half_area 1000 10 (\<lambda>n. 1) 1 0
     (create_leaves four_cylinders [0, 1, 2, 3] 4 3 (replicate 7 (default_custom_node (0, 0))))
     (replicate 7 (default_custom_node (0, 0))) (replicate 7 0) (replicate 7 0) 3 7 7
     = Some (Inr (handoff_cylinders, [0, 0, 0, 4, 5, 4, 5], [0, 0, 0, 0, 1, 1, 1], 2, 5, 7, 1)) \<and>
   make_aabbs (\<lambda>c. c) handoff_cylinders 4 2 5 (replicate 7 (default_node (0, 0)))
     = handoff_boxes \<and>
   handoff_cylinders ! 4
     = \<lparr>bounds = (30, 31), is_leaf = True, primitive_count = 1, first_child_or_primitive = 3\<rparr> \<and>
   handoff_boxes ! 4
     = \<lparr>bounds = (0, 0), is_leaf = False, primitive_count = 0, first_child_or_primitive = 0,
        origin = 0\<rparr>"
  by code_simp

text \<open>
  C2: in the tree of that hybrid build the root's second child (index 2) has the children 3
  and 4; node 4 is the unconverted slot, an internal node whose child index is 0, so its
  children are the nodes 0 and 1, and its bounds \<open>(0, 0)\<close> are not the union \<open>(0, 13)\<close> of theirs.
\<close>

theorem C2_hybrid_internal_node_not_union:
  "hybrid_four = Some (Inr (empty_tree\<lparr>nodes := hybrid_four_nodes, cnodes := handoff_cylinders,
      primitive_indices := [0, 1, 2, 3], node_count := 7\<rparr>)) \<and>
   \<not> is_leaf (hybrid_four_nodes ! 0) \<and> first_child_or_primitive (hybrid_four_nodes ! 0) = 1 \<and>
   \<not> is_leaf (hybrid_four_nodes ! 2) \<and> first_child_or_primitive (hybrid_four_nodes ! 2) = 3 \<and>
   \<not> is_leaf (hybrid_four_nodes ! 4) \<and> first_child_or_primitive (hybrid_four_nodes ! 4) = 0 \<and>
   bounds (hybrid_four_nodes ! 4) = (0, 0) \<and>
   interval_extend (bounds (hybrid_four_nodes ! 1)) (bounds (hybrid_four_nodes ! 0)) = (0, 13) \<and>
   interval_extend (bounds (hybrid_four_nodes ! 0)) (bounds (hybrid_four_nodes ! 1)) = (0, 13)"
  unfolding hybrid_four_def by code_simp

text \<open>
  C10: in the same tree the internal node 4 (second child of node 2) has the even child
  index 0; \<open>sibling\<close> fails its assertion on its first child and maps its second child, node
  1, to node 2.
\<close>

theorem C10_hybrid_even_first_child:
  "hybrid_four = Some (Inr (empty_tree\<lparr>nodes := hybrid_four_nodes, cnodes := handoff_cylinders,
      primitive_indices := [0, 1, 2, 3], node_count := 7\<rparr>)) \<and>
   \<not> is_leaf (hybrid_four_nodes ! 2) \<and> first_child_or_primitive (hybrid_four_nodes ! 2) + 1 = 4 \<and>
   \<not> is_leaf (hybrid_four_nodes ! 4) \<and>
   even (first_child_or_primitive (hybrid_four_nodes ! 4)) \<and>
   sibling (first_child_or_primitive (hybrid_four_nodes ! 4)) = Inl Assertion_failed \<and>
   sibling (first_child_or_primitive (hybrid_four_nodes ! 4) + 1) = Inr 2"
  unfolding hybrid_four_def by code_simp

text \<open>
  C5: with \<open>iteration = 0\<close> the round counter is incremented before it is compared, so the
  cylinder loop never breaks: on two cylinders it runs its one round to the root (the
  returned counter is 1 and the window \<open>[0, 1)\<close>), and the box tree is the converted cylinder
  root marked as a leaf, not the three-node tree of the box build on the two boxes.
\<close>

theorem C5_iteration_zero_runs_cylinder_rounds:
  "cylinder_loop interval_extend interval_half_area 1000 10 (\<lambda>n. 1) 0 0
     (create_leaves [(5, 6), (10, 11)] [0, 1] 2 1 (replicate 3 (default_custom_node (0, 0))))
     (replicate 3 (default_custom_node (0, 0))) (replicate 3 0) (replicate 3 0) 1 3 3
     = Some (Inr
        ([\<lparr>bounds = (5, 11), is_leaf = False, primitive_count = 0, first_child_or_primitive = 1\<rparr>,
          \<lparr>bounds = (5, 6), is_leaf = True, primitive_count = 1, first_child_or_primitive = 0\<rparr>,
          \<lparr>bounds = (10, 11), is_leaf = True, primitive_count = 1, first_child_or_primitive = 1\<rparr>],
         [0, 2, 1], [0, 1, 1], 0, 1, 3, 1)) \<and>
   map_option (map_sum id nodes)
     (build_hybrid interval_extend interval_half_area interval_extend interval_half_area (\<lambda>c. c)
        1000 10 (\<lambda>n. 1) (0, 0) (0, 0) empty_tree [(5, 6), (10, 11)] [0, 1] 2 0)
     = Some (Inr
        [\<lparr>bounds = (5, 11), is_leaf = True, primitive_count = 0, first_child_or_primitive = 1,
          origin = 0\<rparr>,
         \<lparr>bounds = (5, 6), is_leaf = True, primitive_count = 1, first_child_or_primitive = 0,
          origin = 1\<rparr>,
         default_node (0, 0)]) \<and>
   map_option (map_sum id nodes)
     (build_box interval_extend interval_half_area 1000 10 (\<lambda>n. 1) (0, 0) empty_tree
        (map (\<lambda>c. c) [(5, 6), (10, 11)]) [0, 1] 2)
     = Some (Inr
        [\<lparr>bounds = (5, 11), is_leaf = False, primitive_count = 0, first_child_or_primitive = 1,
          origin = 0\<rparr>,
         \<lparr>bounds = (5, 6), is_leaf = True, primitive_count = 1, first_child_or_primitive = 0,
          origin = 0\<rparr>,
         \<lparr>bounds = (10, 11), is_leaf = True, primitive_count = 1, first_child_or_primitive = 1,
          origin = 0\<rparr>])"
  by code_simp

section \<open>Every round merges a pair\<close>




section \<open>The round loop ends\<close>






section \<open>Every slot of the new range is written\<close>




section \<open>Where a round moves each node\<close>





section \<open>What the rounds keep\<close>


section \<open>The finished tree\<close>












section \<open>The cached search and the cache-free reference\<close>







section \<open>The tree of a non-hybrid build\<close>






section \<open>The leaves of the finished trees\<close>









end
